theory Spec2Isabelle
  imports Main
begin

section \<open>Bytes, buffers and the memory primitives of the C library\<close>

text \<open>
  The adapter of \<^verbatim>\<open>lib/vquic/quiche.c\<close> works on a flat byte buffer
  \<^verbatim>\<open>mem\<close> of \<^verbatim>\<open>len\<close> bytes. The buffer is a \<^typ>\<open>string\<close> (a list of 8-bit
  characters), \<^verbatim>\<open>len\<close> is its length, and a pointer into the buffer is the
  index of the byte it points to.
\<close>

abbreviation CR :: char where "CR \<equiv> CHR 0x0D"
abbreviation LF :: char where "LF \<equiv> CHR 0x0A"
abbreviation SP :: char where "SP \<equiv> CHR 0x20"
abbreviation HT :: char where "HT \<equiv> CHR 0x09"
abbreviation COLON :: char where "COLON \<equiv> CHR 0x3A"

definition CRLF :: string where
  "CRLF = [CR, LF]"

text \<open>Offset of the first occurrence of a byte in a sequence of bytes.\<close>

fun first_index :: "char \<Rightarrow> string \<Rightarrow> nat option" where
  "first_index c [] = None"
| "first_index c (x # xs) = (if x = c then Some 0 else map_option Suc (first_index c xs))"

text \<open>
  \<^verbatim>\<open>memchr(mem + s, c, n)\<close>: the address of the first \<^verbatim>\<open>c\<close> among the \<^verbatim>\<open>n\<close> bytes
  that start at \<^verbatim>\<open>mem + s\<close>, or \<^verbatim>\<open>NULL\<close> (here \<open>None\<close>).
\<close>

definition memchr :: "string \<Rightarrow> nat \<Rightarrow> char \<Rightarrow> nat \<Rightarrow> nat option" where
  "memchr mem s c n = map_option (\<lambda>k. s + k) (first_index c (take n (drop s mem)))"

text \<open>The \<^verbatim>\<open>n\<close> bytes at \<^verbatim>\<open>mem + s\<close>: what a pointer with an explicit length denotes.\<close>

definition bytes_at :: "string \<Rightarrow> nat \<Rightarrow> nat \<Rightarrow> string" where
  "bytes_at mem s n = take n (drop s mem)"

text \<open>
  Modelled from the spec: \<^verbatim>\<open>Curl_raw_toupper\<close> and \<^verbatim>\<open>strncasecompare\<close> live in
  \<^verbatim>\<open>lib/strcase.c\<close>, which is not among the sources at hand. The specification
  says that the header name "case-insensitively equals" \<^verbatim>\<open>host\<close>; the comparison
  is ASCII-only and looks at the first \<^verbatim>\<open>max\<close> bytes of both arguments.
\<close>

definition Curl_raw_toupper :: "char \<Rightarrow> char" where
  "Curl_raw_toupper c =
     (case map_of (zip ''abcdefghijklmnopqrstuvwxyz'' ''ABCDEFGHIJKLMNOPQRSTUVWXYZ'') c of
        Some u \<Rightarrow> u
      | None \<Rightarrow> c)"

definition strncasecompare :: "string \<Rightarrow> string \<Rightarrow> nat \<Rightarrow> bool" where
  "strncasecompare first second maxlen =
     (map Curl_raw_toupper (take maxlen first) = map Curl_raw_toupper (take maxlen second))"

section \<open>Header entries\<close>

text \<open>
  \<^verbatim>\<open>quiche_h3_header\<close> holds a name and a value, each as a pointer with a length.
  The model keeps the bytes each pointer/length pair denotes; \<^verbatim>\<open>name_len\<close> and
  \<^verbatim>\<open>value_len\<close> are the lengths of the two byte strings.
\<close>

record quiche_h3_header =
  h_name :: string
  h_value :: string

definition name_len :: "quiche_h3_header \<Rightarrow> nat" where
  "name_len h = length (h_name h)"

definition value_len :: "quiche_h3_header \<Rightarrow> nat" where
  "value_len h = length (h_value h)"

text \<open>
  How the header-translation part of \<^verbatim>\<open>http_request\<close> ends: the array \<^verbatim>\<open>nva\<close> is
  filled, or control jumps to the label \<^verbatim>\<open>fail\<close>, or \<^verbatim>\<open>malloc\<close> returned
  \<^verbatim>\<open>NULL\<close>. \<open>Out_of_bounds\<close> stands for a read outside \<^verbatim>\<open>[mem, mem + len)\<close>,
  which the C code does not guard against and whose behaviour C leaves undefined.
\<close>

datatype 'a parse = Parsed 'a | Goto_fail | No_memory | Out_of_bounds

section \<open>Header translation: lines 391--518 of \<^verbatim>\<open>http_request\<close>\<close>

text \<open>
  Lines 393--399: count the CRLF pairs.
  \<^verbatim>\<open>for(i = 1; i < len; ++i) if(hdbuf[i] == '\n' && hdbuf[i - 1] == '\r') { ++nheader; ++i; }\<close>
\<close>

function count_headers :: "string \<Rightarrow> nat \<Rightarrow> nat \<Rightarrow> nat" where
  "count_headers hdbuf i nheader =
     (if i < length hdbuf then
        (if hdbuf ! i = LF \<and> hdbuf ! (i - 1) = CR
         then count_headers hdbuf (i + 2) (nheader + 1)
         else count_headers hdbuf (i + 1) nheader)
      else nheader)"
  by pat_completeness auto
termination
  by (relation "measure (\<lambda>(hdbuf, i, nheader). length hdbuf - i)") auto

declare count_headers.simps [simp del]

text \<open>
  Lines 430--435: scan backwards for the last space of the request line.
  \<^verbatim>\<open>for(i = line_end - hdbuf; i; --i) if(hdbuf[i - 1] == ' ') { end = &hdbuf[i - 1]; break; }\<close>
  The result is the index of that space, or \<open>None\<close> when \<^verbatim>\<open>end\<close> stays \<^verbatim>\<open>NULL\<close>.
\<close>

fun scan_back :: "string \<Rightarrow> nat \<Rightarrow> nat \<Rightarrow> nat option" where
  "scan_back mem hdbuf 0 = None"
| "scan_back mem hdbuf (Suc j) =
     (if mem ! (hdbuf + j) = SP then Some (hdbuf + j) else scan_back mem hdbuf j)"

text \<open>
  Line 469: \<^verbatim>\<open>for(end = hdbuf; end < line_end && *end != ':'; ++end) ;\<close>
\<close>

function scan_colon :: "string \<Rightarrow> nat \<Rightarrow> nat \<Rightarrow> nat" where
  "scan_colon mem end line_end =
     (if end < line_end \<and> mem ! end \<noteq> COLON then scan_colon mem (end + 1) line_end
      else end)"
  by pat_completeness auto
termination
  by (relation "measure (\<lambda>(mem, end, line_end). line_end - end)") auto

declare scan_colon.simps [simp del]

text \<open>
  Lines 485--486: \<^verbatim>\<open>while(*hdbuf == ' ' || *hdbuf == '\t') ++hdbuf;\<close>
  The loop has no bound of its own; a read at or beyond \<^verbatim>\<open>mem + len\<close> is \<open>None\<close>.
\<close>

function skip_blanks :: "string \<Rightarrow> nat \<Rightarrow> nat option" where
  "skip_blanks mem hdbuf =
     (if hdbuf < length mem then
        (if mem ! hdbuf = SP \<or> mem ! hdbuf = HT then skip_blanks mem (hdbuf + 1)
         else Some hdbuf)
      else None)"
  by pat_completeness auto
termination
  by (relation "measure (\<lambda>(mem, hdbuf). length mem - hdbuf)") auto

declare skip_blanks.simps [simp del]

text \<open>
  Lines 411--449: the request line gives \<^verbatim>\<open>nva[0]\<close>, \<^verbatim>\<open>nva[1]\<close> and \<^verbatim>\<open>nva[2]\<close>.
  The result carries \<^verbatim>\<open>line_end\<close> along for the loop that follows.
  \<open>ssl\<close> is \<^verbatim>\<open>conn->handler->flags & PROTOPT_SSL\<close>.
\<close>

definition request_line :: "bool \<Rightarrow> string \<Rightarrow> (nat \<times> quiche_h3_header list) parse" where
  "request_line ssl mem =
     (case memchr mem 0 CR (length mem) of
        None \<Rightarrow> Goto_fail
      | Some line_end \<Rightarrow>
          (case memchr mem 0 SP (line_end - 0) of
             None \<Rightarrow> Goto_fail
           | Some end \<Rightarrow>
               if end = 0 then Goto_fail
               else
                 let nva0 = \<lparr>h_name = '':method'', h_value = bytes_at mem 0 (end - 0)\<rparr>;
                     hdbuf = end + 1
                 in (case scan_back mem hdbuf (line_end - hdbuf) of
                       None \<Rightarrow> Goto_fail
                     | Some end' \<Rightarrow>
                         if end' = hdbuf then Goto_fail
                         else
                           let nva1 = \<lparr>h_name = '':path'',
                                       h_value = bytes_at mem hdbuf (end' - hdbuf)\<rparr>;
                               nva2 = \<lparr>h_name = '':scheme'',
                                       h_value = (if ssl then ''https'' else ''http'')\<rparr>
                           in Parsed (line_end, [nva0, nva1, nva2]))))"

text \<open>
  Lines 454--509: one header line per round. \<open>nva\<close> is the filled part
  \<^verbatim>\<open>nva[0 .. i)\<close> of the array, so the assignment to \<^verbatim>\<open>nva[i]\<close> appends an entry.
  \<^verbatim>\<open>hdbuf = line_end + 2\<close> may point beyond \<^verbatim>\<open>mem + len\<close>; then the length
  \<^verbatim>\<open>len - (hdbuf - mem)\<close> handed to \<^verbatim>\<open>memchr\<close> wraps around and the search leaves
  the buffer.
\<close>

function header_lines ::
  "string \<Rightarrow> nat \<Rightarrow> nat \<Rightarrow> nat \<Rightarrow> nat \<Rightarrow> quiche_h3_header list
     \<Rightarrow> (nat \<times> quiche_h3_header list) parse" where
  "header_lines mem nheader i line_end authority_idx nva =
     (if i < nheader then
        (let hdbuf = line_end + 2 in
         if length mem < hdbuf then Out_of_bounds
         else
           (case memchr mem hdbuf CR (length mem - hdbuf) of
              None \<Rightarrow> Goto_fail
            | Some line_end' \<Rightarrow>
                if line_end' = hdbuf then Goto_fail
                else if mem ! hdbuf = SP \<or> mem ! hdbuf = HT then Goto_fail
                else
                  (let end = scan_colon mem hdbuf line_end' in
                   if end = hdbuf \<or> end = line_end' then Goto_fail
                   else
                     (let hlen = end - hdbuf;
                          is_host = (hlen = 4 \<and> strncasecompare ''host'' (bytes_at mem hdbuf 4) 4);
                          authority_idx' = (if is_host then i else authority_idx);
                          nm = (if is_host then '':authority'' else bytes_at mem hdbuf (end - hdbuf))
                      in (case skip_blanks mem (end + 1) of
                            None \<Rightarrow> Out_of_bounds
                          | Some hdbuf' \<Rightarrow>
                              header_lines mem nheader (i + 1) line_end' authority_idx'
                                (nva @ [\<lparr>h_name = nm,
                                         h_value = bytes_at mem hdbuf' (line_end' - hdbuf')\<rparr>]))))))
      else Parsed (authority_idx, nva))"
  by pat_completeness auto
termination
  by (relation "measure (\<lambda>(mem, nheader, i, line_end, authority_idx, nva). nheader - i)") auto

declare header_lines.simps [simp del]

text \<open>
  Lines 514--516: \<^verbatim>\<open>for(i = authority_idx; i > AUTHORITY_DST_IDX; --i) nva[i] = nva[i - 1];\<close>
  The result is the array and the final \<^verbatim>\<open>i\<close>.
\<close>

definition AUTHORITY_DST_IDX :: nat where
  "AUTHORITY_DST_IDX = 3"

function shift_back :: "quiche_h3_header list \<Rightarrow> nat \<Rightarrow> quiche_h3_header list \<times> nat" where
  "shift_back nva i =
     (if AUTHORITY_DST_IDX < i then shift_back (nva[i := nva ! (i - 1)]) (i - 1)
      else (nva, i))"
  by pat_completeness auto
termination
  by (relation "measure (\<lambda>(nva, i). i)") auto

declare shift_back.simps [simp del]

text \<open>Lines 512--518: \<^verbatim>\<open>:authority\<close> is rotated into its place.\<close>

definition move_authority :: "nat \<Rightarrow> quiche_h3_header list \<Rightarrow> quiche_h3_header list" where
  "move_authority authority_idx nva =
     (if authority_idx \<noteq> 0 \<and> authority_idx \<noteq> AUTHORITY_DST_IDX then
        (let authority = nva ! authority_idx;
             (nva', i) = shift_back nva authority_idx
         in nva'[i := authority])
      else nva)"

text \<open>
  Lines 411--518, once \<^verbatim>\<open>nva\<close> has been allocated with room for \<^verbatim>\<open>nheader\<close> entries.
\<close>

definition fill_nva :: "bool \<Rightarrow> string \<Rightarrow> nat \<Rightarrow> quiche_h3_header list parse" where
  "fill_nva ssl mem nheader =
     (case request_line ssl mem of
        Parsed (line_end, nva) \<Rightarrow>
          (case header_lines mem nheader 3 line_end 0 nva of
             Parsed (authority_idx, nva') \<Rightarrow> Parsed (move_authority authority_idx nva')
           | Goto_fail \<Rightarrow> Goto_fail
           | No_memory \<Rightarrow> No_memory
           | Out_of_bounds \<Rightarrow> Out_of_bounds)
      | Goto_fail \<Rightarrow> Goto_fail
      | No_memory \<Rightarrow> No_memory
      | Out_of_bounds \<Rightarrow> Out_of_bounds)"

text \<open>
  Lines 391--518 as a whole: the header translation. \<open>malloc_ok\<close> tells whether
  \<^verbatim>\<open>malloc\<close> at line 407 returns a block.
\<close>

definition translate :: "bool \<Rightarrow> bool \<Rightarrow> string \<Rightarrow> quiche_h3_header list parse" where
  "translate ssl malloc_ok mem =
     (let nheader = count_headers mem 1 0 in
      if nheader < 2 then Goto_fail
      else
        (let nheader' = nheader + 1 in
         if \<not> malloc_ok then No_memory
         else fill_nva ssl mem nheader'))"

section \<open>Connection state, environment and observable calls\<close>

datatype CURLcode =
    CURLE_OK | CURLE_FAILED_INIT | CURLE_RECV_ERROR | CURLE_SEND_ERROR
  | CURLE_AGAIN | CURLE_OUT_OF_MEMORY

datatype Curl_HttpReq =
    HTTPREQ_NONE | HTTPREQ_GET | HTTPREQ_POST | HTTPREQ_POST_FORM | HTTPREQ_POST_MIME
  | HTTPREQ_PUT | HTTPREQ_HEAD | HTTPREQ_OPTIONS | HTTPREQ_LAST

text \<open>\<^verbatim>\<open>QUICHE_ERR_DONE\<close> of \<^verbatim>\<open>quiche.h\<close>: there is no more work to do.\<close>

definition QUICHE_ERR_DONE :: int where
  "QUICHE_ERR_DONE = - 1"

definition MAX_ACC :: nat where
  "MAX_ACC = 60000"

text \<open>
  What a call of \<^verbatim>\<open>recv(sockfd, buf, sizeof(buf), 0)\<close> gives: the bytes written to
  \<^verbatim>\<open>buf\<close> (the return value is their number), or \<^verbatim>\<open>-1\<close> with \<^verbatim>\<open>errno\<close> set.
\<close>

datatype errno = EAGAIN | EWOULDBLOCK | EINTR | ECONNREFUSED | EBADF

datatype recv_result = Received string | Recv_failed errno

text \<open>The event a successful \<^verbatim>\<open>quiche_h3_conn_poll\<close> hands out, by \<^verbatim>\<open>quiche_h3_event_type\<close>.\<close>

datatype quiche_h3_event =
    QUICHE_H3_EVENT_HEADERS "(string \<times> string) list"
  | QUICHE_H3_EVENT_DATA
  | QUICHE_H3_EVENT_FINISHED

text \<open>
  The calls the adapter makes to the socket, to the QUIC engine and to the allocator,
  in the order it makes them, with the arguments that matter. Calls that only print
  (\<^verbatim>\<open>failf\<close>, \<^verbatim>\<open>fprintf\<close>, the per-header \<^verbatim>\<open>H3BUGF\<close> lines and the other
  \<^verbatim>\<open>infof\<close> lines) are left out, except the size warning of line 535.
\<close>

datatype call =
    Call_recv
  | Call_quiche_conn_recv string
  | Call_quiche_conn_send
  | Call_send nat
  | Call_quiche_conn_stream_recv nat nat
  | Call_quiche_h3_conn_poll
  | Call_quiche_h3_event_for_each_header "(string \<times> string) list"
  | Call_quiche_h3_recv_body int nat
  | Call_quiche_conn_close
  | Call_quiche_h3_event_free
  | Call_quiche_conn_stream_send nat string bool
  | Call_quiche_h3_config_new
  | Call_quiche_h3_conn_new_with_transport
  | Call_malloc nat
  | Call_free
  | Call_infof_size_warning
  | Call_quiche_h3_send_request "quiche_h3_header list" bool

text \<open>
  The state the adapter works on. The first group holds the fields of
  \<^verbatim>\<open>struct connectdata\<close>, \<^verbatim>\<open>struct quicsocket\<close> and \<^verbatim>\<open>struct HTTP\<close> that the code
  reads or writes: \<open>h3c\<close> tells whether \<^verbatim>\<open>qs->h3c\<close> is set, \<open>ssl\<close> is
  \<^verbatim>\<open>conn->handler->flags & PROTOPT_SSL\<close>. The second group is the environment: for
  each external function the values its successive calls return. A call on an empty
  list has no answer, and the run of the adapter is then \<open>None\<close>: the lists bound how
  long the loops of the adapter can run. \<open>malloc_ok\<close> and \<open>send_request_ret\<close> answer
  the single calls of \<^verbatim>\<open>malloc\<close> and \<^verbatim>\<open>quiche_h3_send_request\<close>. \<open>heap_blocks\<close>
  counts the blocks that \<^verbatim>\<open>malloc\<close> handed out and \<^verbatim>\<open>free\<close> has not taken back.
  \<open>trace\<close> lists the calls made so far.
\<close>

record world =
  h3c :: bool
  ssl :: bool
  httpreq :: Curl_HttpReq
  infilesize :: int
  upload_left :: int
  stream3_id :: int
  recv_ret :: "recv_result list"
  send_ret :: "int list"
  quiche_conn_recv_ret :: "int list"
  quiche_conn_send_ret :: "int list"
  quiche_conn_stream_recv_ret :: "int list"
  quiche_h3_conn_poll_ret :: "(int \<times> quiche_h3_event) list"
  quiche_h3_recv_body_ret :: "int list"
  quiche_conn_close_ret :: "int list"
  quiche_conn_stream_send_ret :: "int list"
  malloc_ok :: bool
  send_request_ret :: int
  heap_blocks :: nat
  trace :: "call list"

definition called :: "call \<Rightarrow> world \<Rightarrow> world" where
  "called c w = w\<lparr>trace := trace w @ [c]\<rparr>"

section \<open>The datagram pump\<close>

text \<open>
  \<^verbatim>\<open>process_ingress\<close>, lines 197--224. Each round takes one answer of \<^verbatim>\<open>recv\<close> and,
  for a datagram, one answer of \<^verbatim>\<open>quiche_conn_recv\<close>.
\<close>

function process_ingress :: "world \<Rightarrow> (CURLcode \<times> world) option" where
  "process_ingress w =
     (case recv_ret w of
        [] \<Rightarrow> None
      | r # rs \<Rightarrow>
          (let w1 = called Call_recv (w\<lparr>recv_ret := rs\<rparr>) in
           case r of
             Recv_failed e \<Rightarrow>
               if e = EAGAIN \<or> e = EWOULDBLOCK then Some (CURLE_OK, w1)
               else Some (CURLE_RECV_ERROR, w1)
           | Received buf \<Rightarrow>
               (case quiche_conn_recv_ret w1 of
                  [] \<Rightarrow> None
                | recvd # qs \<Rightarrow>
                    (let w2 = called (Call_quiche_conn_recv buf) (w1\<lparr>quiche_conn_recv_ret := qs\<rparr>) in
                     if recvd = QUICHE_ERR_DONE then Some (CURLE_OK, w2)
                     else if recvd < 0 then Some (CURLE_RECV_ERROR, w2)
                     else process_ingress w2))))"
  by pat_completeness auto
termination
  by (relation "measure (\<lambda>w. length (recv_ret w))") (auto simp: called_def)
declare process_ingress.simps [simp del]


section \<open>The event dispatcher\<close>

text \<open>
  The poll loop of \<^verbatim>\<open>h3_stream_recv\<close>, lines 285--315. \<open>recvd\<close> is the local variable
  of that name; \<open>buffersize\<close> is the size of the caller's buffer. The loop hands
  \<^verbatim>\<open>qs->h3c\<close> to \<^verbatim>\<open>quiche_h3_conn_poll\<close> and does not test it.
\<close>

function poll_loop :: "nat \<Rightarrow> int \<Rightarrow> world \<Rightarrow> (int \<times> world) option" where
  "poll_loop buffersize recvd w =
     (case quiche_h3_conn_poll_ret w of
        [] \<Rightarrow> None
      | (s, ev) # ps \<Rightarrow>
          (let w1 = called Call_quiche_h3_conn_poll (w\<lparr>quiche_h3_conn_poll_ret := ps\<rparr>) in
           if s < 0 then Some (recvd, w1)
           else
             (case ev of
                QUICHE_H3_EVENT_HEADERS hs \<Rightarrow>
                  poll_loop buffersize recvd
                    (called Call_quiche_h3_event_free
                       (called (Call_quiche_h3_event_for_each_header hs) w1))
              | QUICHE_H3_EVENT_DATA \<Rightarrow>
                  (case quiche_h3_recv_body_ret w1 of
                     [] \<Rightarrow> None
                   | recvd' # bs \<Rightarrow>
                       poll_loop buffersize recvd'
                         (called Call_quiche_h3_event_free
                            (called (Call_quiche_h3_recv_body s buffersize)
                               (w1\<lparr>quiche_h3_recv_body_ret := bs\<rparr>))))
              | QUICHE_H3_EVENT_FINISHED \<Rightarrow>
                  (case quiche_conn_close_ret w1 of
                     [] \<Rightarrow> None
                   | rc # cs \<Rightarrow>
                       poll_loop buffersize recvd
                         (called Call_quiche_h3_event_free
                            (called Call_quiche_conn_close
                               (w1\<lparr>quiche_conn_close_ret := cs\<rparr>)))))))"
  by pat_completeness auto
termination
  by (relation "measure (\<lambda>(buffersize, recvd, w). length (quiche_h3_conn_poll_ret w))")
     (auto simp: called_def)
declare poll_loop.simps [simp del]

text \<open>
  \<^verbatim>\<open>h3_stream_recv\<close>, lines 258--319. The result is the returned byte count and the
  code stored in \<^verbatim>\<open>*curlcode\<close>.
\<close>

definition h3_stream_recv :: "world \<Rightarrow> nat \<Rightarrow> ((int \<times> CURLcode) \<times> world) option" where
  "h3_stream_recv w buffersize =
     (case process_ingress w of
        None \<Rightarrow> None
      | Some (result, w1) \<Rightarrow>
          if result \<noteq> CURLE_OK then Some ((- 1, CURLE_RECV_ERROR), w1)
          else
            (case quiche_conn_stream_recv_ret w1 of
               [] \<Rightarrow> None
             | recvd # rs \<Rightarrow>
                 (let w2 = called (Call_quiche_conn_stream_recv 0 buffersize)
                             (w1\<lparr>quiche_conn_stream_recv_ret := rs\<rparr>) in
                  if recvd = QUICHE_ERR_DONE then Some ((- 1, CURLE_AGAIN), w2)
                  else
                    (case poll_loop buffersize recvd w2 of
                       None \<Rightarrow> None
                     | Some (recvd', w3) \<Rightarrow> Some ((recvd', CURLE_OK), w3)))))"

section \<open>The request driver\<close>

text \<open>
  Lines 524--532: \<^verbatim>\<open>for(i = 0; i < nheader; ++i) acc += nva[i].name_len + nva[i].value_len;\<close>
  \<^verbatim>\<open>acc\<close> is a \<^verbatim>\<open>size_t\<close>. Every name and every value is a piece of the request
  buffer or one of six short constants, one entry per line of the buffer, so the sum
  stays far below the range of \<^verbatim>\<open>size_t\<close> for a buffer that fits into memory; the
  model adds natural numbers.
\<close>

definition cumulative_length :: "quiche_h3_header list \<Rightarrow> nat" where
  "cumulative_length nva = foldl (\<lambda>acc h. acc + (name_len h + value_len h)) 0 nva"

text \<open>The first four labels of the \<^verbatim>\<open>switch\<close> at line 541.\<close>

definition is_upload :: "Curl_HttpReq \<Rightarrow> bool" where
  "is_upload r =
     (case r of
        HTTPREQ_POST \<Rightarrow> True
      | HTTPREQ_POST_FORM \<Rightarrow> True
      | HTTPREQ_POST_MIME \<Rightarrow> True
      | HTTPREQ_PUT \<Rightarrow> True
      | _ \<Rightarrow> False)"

text \<open>
  What the C standard leaves undefined and the code can run into: a read outside the
  request buffer, and a read of the local \<^verbatim>\<open>stream3_id\<close> while it holds no value.
\<close>

datatype fault = Read_out_of_bounds | Read_uninitialized

text \<open>The label \<^verbatim>\<open>fail\<close>, lines 573--575; \<open>nva\<close> tells whether \<^verbatim>\<open>nva\<close> is not \<^verbatim>\<open>NULL\<close>.\<close>

definition free_nva :: "bool \<Rightarrow> world \<Rightarrow> world" where
  "free_nva nva w =
     called Call_free (if nva then w\<lparr>heap_blocks := heap_blocks w - 1\<rparr> else w)"

definition fail :: "bool \<Rightarrow> world \<Rightarrow> (fault + CURLcode) \<times> world" where
  "fail nva w = (Inr CURLE_SEND_ERROR, free_nva nva w)"

text \<open>
  Lines 520--571: the size warning, the \<^verbatim>\<open>switch\<close> on the request method, and the
  end of \<^verbatim>\<open>http_request\<close>. The local \<^verbatim>\<open>stream3_id\<close> is \<open>None\<close> until it is assigned.
\<close>

definition submit :: "quiche_h3_header list \<Rightarrow> world \<Rightarrow> (fault + CURLcode) \<times> world" where
  "submit nva w =
     (let acc = cumulative_length nva;
          w1 = (if MAX_ACC < acc then called Call_infof_size_warning w else w);
          (stream3_id', w2) =
            (if is_upload (httpreq w1) then
               (None,
                if infilesize w1 \<noteq> - 1 then w1\<lparr>upload_left := infilesize w1\<rparr>
                else w1\<lparr>upload_left := - 1\<rparr>)
             else
               (Some (send_request_ret w1),
                called (Call_quiche_h3_send_request nva True) w1));
          w3 = free_nva True w2
      in case stream3_id' of
           None \<Rightarrow> (Inl Read_uninitialized, w3)
         | Some v \<Rightarrow>
             if v < 0 then (Inr CURLE_SEND_ERROR, w3)
             else (Inr CURLE_OK, w3\<lparr>stream3_id := v\<rparr>))"

text \<open>
  \<^verbatim>\<open>http_request\<close>, lines 369--576. The code does not check what
  \<^verbatim>\<open>quiche_h3_config_new\<close> and \<^verbatim>\<open>quiche_h3_conn_new_with_transport\<close> return (lines
  385 and 389); the model takes the HTTP/3 context to exist after the two calls. The
  array \<^verbatim>\<open>nva\<close> is allocated between the count of the lines and the rest of the
  translation, as in the code.
\<close>

definition http_request :: "world \<Rightarrow> string \<Rightarrow> (fault + CURLcode) \<times> world" where
  "http_request w mem =
     (let w1 = called Call_quiche_h3_conn_new_with_transport
                 (called Call_quiche_h3_config_new (w\<lparr>h3c := True\<rparr>));
          nheader = count_headers mem 1 0
      in if nheader < 2 then fail False w1
         else
           (let nheader' = nheader + 1;
                w2 = called (Call_malloc nheader') w1
            in if \<not> malloc_ok w2 then (Inr CURLE_OUT_OF_MEMORY, w2)
               else
                 (let w3 = w2\<lparr>heap_blocks := heap_blocks w2 + 1\<rparr> in
                  case fill_nva (ssl w3) mem nheader' of
                    Goto_fail \<Rightarrow> fail True w3
                  | No_memory \<Rightarrow> (Inr CURLE_OUT_OF_MEMORY, w3)
                  | Out_of_bounds \<Rightarrow> (Inl Read_out_of_bounds, w3)
                  | Parsed nva \<Rightarrow> submit nva w3)))"


section \<open>Header blocks, line by line\<close>

text \<open>
  The header translation reads the request buffer through indices. To say what it
  computes, the same translation is written a second time on the lines of the block,
  as lists of bytes without their CRLF; the properties below show that the code of
  \<^verbatim>\<open>http_request\<close> computes these functions.
\<close>

definition blank :: "char \<Rightarrow> bool" where
  "blank c = (c = SP \<or> c = HT)"

text \<open>The header name is \<^verbatim>\<open>host\<close>, in any mix of upper and lower case.\<close>

definition names_host :: "string \<Rightarrow> bool" where
  "names_host nm = (length nm = 4 \<and> strncasecompare ''host'' nm 4)"

text \<open>The bytes of a header line before its first colon.\<close>

definition line_name :: "string \<Rightarrow> string" where
  "line_name l = takeWhile (\<lambda>c. c \<noteq> COLON) l"

text \<open>
  The entry for one header line, or \<open>None\<close> for a line that is rejected: an empty
  line, a line that starts with a space or a tab, a line that starts with a colon, a
  line without a colon.
\<close>

definition line_entry :: "string \<Rightarrow> quiche_h3_header option" where
  "line_entry l =
     (if l = [] \<or> blank (hd l) \<or> line_name l = [] \<or> line_name l = l then None
      else Some \<lparr>h_name = (if names_host (line_name l) then '':authority'' else line_name l),
                 h_value = dropWhile blank (drop (Suc (length (line_name l))) l)\<rparr>)"

text \<open>
  The entries for a list of header lines, the first of which gets index \<open>i\<close>, and the
  index of the last line that names \<^verbatim>\<open>host\<close> (\<open>authority_idx\<close> when there is none).
\<close>

fun lines_entries ::
  "nat \<Rightarrow> nat \<Rightarrow> string list \<Rightarrow> (nat \<times> quiche_h3_header list) option" where
  "lines_entries i authority_idx [] = Some (authority_idx, [])"
| "lines_entries i authority_idx (l # ls) =
     (case line_entry l of
        None \<Rightarrow> None
      | Some e \<Rightarrow>
          (case lines_entries (Suc i) (if names_host (line_name l) then i else authority_idx) ls of
             None \<Rightarrow> None
           | Some (a, es) \<Rightarrow> Some (a, e # es)))"

text \<open>The number of CRLF pairs of a buffer, read from left to right.\<close>

fun crlf_pairs :: "string \<Rightarrow> nat" where
  "crlf_pairs (a # b # r) = (if a = CR \<and> b = LF then Suc (crlf_pairs r) else crlf_pairs (b # r))"
| "crlf_pairs _ = 0"

text \<open>
  A block of lines: a first line \<open>l0\<close>, the lines \<open>ls\<close>, and the empty line that ends
  the block, each followed by CRLF.
\<close>

definition lines_block :: "string \<Rightarrow> string list \<Rightarrow> string" where
  "lines_block l0 ls = l0 @ CRLF @ concat (map (\<lambda>l. l @ CRLF) ls) @ CRLF"

text \<open>
  A well-formed header block is written from a method, a path, a version and a list
  of headers; a header is a name, the blanks after the colon, and a value.
  The method is not empty and has no space; the path is not empty and may have
  spaces; the version has no space. A header name is not empty, does not start with a
  blank and has no colon; a value does not start with a blank (the blanks after the
  colon are the header's second part). No part contains a carriage return.
\<close>

definition wf_request :: "string \<Rightarrow> string \<Rightarrow> string \<Rightarrow> bool" where
  "wf_request method path version =
     (method \<noteq> [] \<and> SP \<notin> set method \<and> CR \<notin> set method \<and>
      path \<noteq> [] \<and> CR \<notin> set path \<and>
      SP \<notin> set version \<and> CR \<notin> set version)"

definition wf_header :: "string \<times> string \<times> string \<Rightarrow> bool" where
  "wf_header h =
     (case h of (name, ows, v) \<Rightarrow>
        name \<noteq> [] \<and> \<not> blank (hd name) \<and> COLON \<notin> set name \<and> CR \<notin> set name \<and>
        list_all blank ows \<and>
        CR \<notin> set v \<and> (v = [] \<or> \<not> blank (hd v)))"

definition header_line :: "string \<times> string \<times> string \<Rightarrow> string" where
  "header_line h = (case h of (name, ows, v) \<Rightarrow> name @ COLON # ows @ v)"

definition header_block ::
  "string \<Rightarrow> string \<Rightarrow> string \<Rightarrow> (string \<times> string \<times> string) list \<Rightarrow> string" where
  "header_block method path version hs =
     lines_block (method @ SP # path @ SP # version) (map header_line hs)"

text \<open>The entry a well-formed header is translated to, before \<^verbatim>\<open>:authority\<close> is moved.\<close>

definition header_entry :: "string \<times> string \<times> string \<Rightarrow> quiche_h3_header" where
  "header_entry h =
     (case h of (name, ows, v) \<Rightarrow>
        \<lparr>h_name = (if names_host name then '':authority'' else name), h_value = v\<rparr>)"

text \<open>The three entries made from the request line.\<close>

definition pseudo_headers :: "bool \<Rightarrow> string \<Rightarrow> string \<Rightarrow> quiche_h3_header list" where
  "pseudo_headers encrypted method path =
     [\<lparr>h_name = '':method'', h_value = method\<rparr>,
      \<lparr>h_name = '':path'', h_value = path\<rparr>,
      \<lparr>h_name = '':scheme'', h_value = (if encrypted then ''https'' else ''http'')\<rparr>]"

text \<open>Whether the header at position \<open>j\<close> of \<open>hs\<close> names \<^verbatim>\<open>host\<close>.\<close>

definition host_at :: "(string \<times> string \<times> string) list \<Rightarrow> nat \<Rightarrow> bool" where
  "host_at hs j = (j < length hs \<and> names_host (fst (hs ! j)))"

text \<open>
  The index that \<^verbatim>\<open>authority_idx\<close> holds after the headers \<open>hs\<close>, the first of which
  has index \<open>i\<close>: the index of the last header that names \<^verbatim>\<open>host\<close>.
\<close>

fun authority_index :: "nat \<Rightarrow> nat \<Rightarrow> (string \<times> string \<times> string) list \<Rightarrow> nat" where
  "authority_index i authority_idx [] = authority_idx"
| "authority_index i authority_idx (h # hs) =
     authority_index (Suc i) (if names_host (fst h) then i else authority_idx) hs"

text \<open>
  The parts of a request line that the claims name: the bytes before its first space,
  the bytes after its first space, the bytes before its last space.
\<close>

definition before_first_space :: "string \<Rightarrow> string" where
  "before_first_space l = takeWhile (\<lambda>c. c \<noteq> SP) l"

definition after_first_space :: "string \<Rightarrow> string" where
  "after_first_space l = tl (dropWhile (\<lambda>c. c \<noteq> SP) l)"

definition before_last_space :: "string \<Rightarrow> string" where
  "before_last_space l = rev (tl (dropWhile (\<lambda>c. c \<noteq> SP) (rev l)))"

text \<open>
  A request line from which lines 411--441 take no method and no path: it has no space
  at all, or nothing before its first space, or no second space, or nothing between its
  first and its last space.
\<close>

definition no_method_or_path :: "string \<Rightarrow> bool" where
  "no_method_or_path l =
     (SP \<notin> set l \<or> before_first_space l = [] \<or>
      SP \<notin> set (after_first_space l) \<or> before_last_space (after_first_space l) = [])"

text \<open>
  A request with three headers, the last of which has a value of \<open>n\<close> bytes, and its
  translation on an encrypted connection: six entries.
\<close>

definition long_request :: "string \<Rightarrow> nat \<Rightarrow> string" where
  "long_request method n =
     header_block method ''/data'' ''HTTP/1.1''
       [(''Host'', '' '', ''example.com''), (''Accept'', '' '', ''*/*''),
        (''X-Pad'', '' '', replicate n (CHR ''a''))]"

definition long_headers :: "string \<Rightarrow> nat \<Rightarrow> quiche_h3_header list" where
  "long_headers method n =
     pseudo_headers True method ''/data'' @
     [\<lparr>h_name = '':authority'', h_value = ''example.com''\<rparr>,
      \<lparr>h_name = ''Accept'', h_value = ''*/*''\<rparr>,
      \<lparr>h_name = ''X-Pad'', h_value = replicate n (CHR ''a'')\<rparr>]"

text \<open>A request with two \<^verbatim>\<open>Host\<close> headers, and a list of seven entries.\<close>

definition two_hosts_request :: string where
  "two_hosts_request =
     ''GET / HTTP/1.1'' @ CRLF @ ''X: y'' @ CRLF @ ''Host: a'' @ CRLF @ ''Z: w'' @ CRLF @
     ''Host: b'' @ CRLF @ CRLF"

definition two_hosts_headers :: "quiche_h3_header list" where
  "two_hosts_headers =
     [\<lparr>h_name = '':method'', h_value = ''GET''\<rparr>,
      \<lparr>h_name = '':path'', h_value = ''/''\<rparr>,
      \<lparr>h_name = '':scheme'', h_value = ''https''\<rparr>,
      \<lparr>h_name = '':authority'', h_value = ''b''\<rparr>,
      \<lparr>h_name = ''X'', h_value = ''y''\<rparr>,
      \<lparr>h_name = '':authority'', h_value = ''a''\<rparr>,
      \<lparr>h_name = ''Z'', h_value = ''w''\<rparr>]"

text \<open>
  Four requests that the translation rejects: one whose request line has no space, one
  whose request line has nothing between its two spaces, one whose last header line is
  a continuation line, before the empty line that ends the block, and one without that
  empty line whose continuation line is followed by one more line.
\<close>

definition no_space_request :: string where
  "no_space_request = ''GET/index.html'' @ CRLF @ ''Host: example.com'' @ CRLF @ CRLF"

definition empty_path_request :: string where
  "empty_path_request = ''GET  HTTP/1.1'' @ CRLF @ ''Host: example.com'' @ CRLF @ CRLF"

definition folded_request :: string where
  "folded_request = lines_block ''GET / HTTP/1.1'' [''Host: example.com'', ''X: a'', ''  b: c'']"

definition late_line_request :: string where
  "late_line_request =
     ''GET / HTTP/1.1'' @ CRLF @ ''X: a'' @ CRLF @ ''  b: c'' @ CRLF @ ''Host: example.com'' @ CRLF"

text \<open>
  Two requests with a continuation line that the loop over the header lines never
  reads: in the first no CRLF follows the one of the continuation line, in the second
  a header line holds a carriage return of its own.
\<close>

definition unterminated_folded_request :: string where
  "unterminated_folded_request =
     ''GET / HTTP/1.1'' @ CRLF @ ''Host: example.com'' @ CRLF @ ''  folded'' @ CRLF"

definition stray_cr_request :: string where
  "stray_cr_request =
     ''GET / HTTP/1.1'' @ CRLF @ ''A: b'' @ [CR] @ ''XC:d'' @ CRLF @ '' folded'' @ CRLF @ CRLF"

section \<open>Reading the list of calls\<close>

text \<open>
  The calls of the ingress pump (\<^verbatim>\<open>process_ingress\<close>), those of the egress pump
  (\<^verbatim>\<open>flush_egress\<close>), and the call that reads the body of a Data event.
\<close>

fun ingress_call :: "call \<Rightarrow> bool" where
  "ingress_call Call_recv = True"
| "ingress_call (Call_quiche_conn_recv d) = True"
| "ingress_call _ = False"

fun egress_call :: "call \<Rightarrow> bool" where
  "egress_call Call_quiche_conn_send = True"
| "egress_call (Call_send n) = True"
| "egress_call _ = False"

fun recv_body_call :: "call \<Rightarrow> bool" where
  "recv_body_call (Call_quiche_h3_recv_body s n) = True"
| "recv_body_call _ = False"

fun send_request_call :: "call \<Rightarrow> bool" where
  "send_request_call (Call_quiche_h3_send_request nva fin) = True"
| "send_request_call _ = False"

text \<open>
  The calls of one round of the poll loop, by the event that \<^verbatim>\<open>quiche_h3_conn_poll\<close>
  hands out, and the events that take an answer of \<^verbatim>\<open>quiche_h3_recv_body\<close> and of
  \<^verbatim>\<open>quiche_conn_close\<close>.
\<close>

fun event_calls :: "nat \<Rightarrow> int \<times> quiche_h3_event \<Rightarrow> call list" where
  "event_calls buffersize (s, QUICHE_H3_EVENT_HEADERS hs) =
     [Call_quiche_h3_conn_poll, Call_quiche_h3_event_for_each_header hs, Call_quiche_h3_event_free]"
| "event_calls buffersize (s, QUICHE_H3_EVENT_DATA) =
     [Call_quiche_h3_conn_poll, Call_quiche_h3_recv_body s buffersize, Call_quiche_h3_event_free]"
| "event_calls buffersize (s, QUICHE_H3_EVENT_FINISHED) =
     [Call_quiche_h3_conn_poll, Call_quiche_conn_close, Call_quiche_h3_event_free]"

fun data_event :: "int \<times> quiche_h3_event \<Rightarrow> bool" where
  "data_event (s, ev) = (ev = QUICHE_H3_EVENT_DATA)"

fun finished_event :: "int \<times> quiche_h3_event \<Rightarrow> bool" where
  "finished_event (s, ev) = (ev = QUICHE_H3_EVENT_FINISHED)"

text \<open>The calls by which the ingress pump takes the datagrams \<open>ds\<close> and feeds them to the engine.\<close>

definition fed :: "string list \<Rightarrow> call list" where
  "fed ds = concat (map (\<lambda>d. [Call_recv, Call_quiche_conn_recv d]) ds)"

text \<open>
  A connection on which nothing has happened yet and whose environment answers no
  call; the examples below fill in what they need.
\<close>

definition idle :: world where
  "idle = \<lparr>h3c = False, ssl = True, httpreq = HTTPREQ_GET, infilesize = - 1, upload_left = 0,
            stream3_id = 0, recv_ret = [], send_ret = [], quiche_conn_recv_ret = [],
            quiche_conn_send_ret = [], quiche_conn_stream_recv_ret = [],
            quiche_h3_conn_poll_ret = [], quiche_h3_recv_body_ret = [],
            quiche_conn_close_ret = [], quiche_conn_stream_send_ret = [],
            malloc_ok = True, send_request_ret = 0, heap_blocks = 0, trace = []\<rparr>"

section \<open>The example request of the specification\<close>

text \<open>
  The request \<^verbatim>\<open>"GET /index.html HTTP/1.1\r\nHost: example.com\r\nAccept: */*\r\n"\<close>,
  as the specification writes it: three lines, and no empty line after them.
\<close>

definition example_request :: string where
  "example_request =
     ''GET /index.html HTTP/1.1'' @ CRLF @ ''Host: example.com'' @ CRLF @ ''Accept: */*'' @ CRLF"

definition example_headers :: "quiche_h3_header list" where
  "example_headers =
     [\<lparr>h_name = '':method'', h_value = ''GET''\<rparr>,
      \<lparr>h_name = '':path'', h_value = ''/index.html''\<rparr>,
      \<lparr>h_name = '':scheme'', h_value = ''https''\<rparr>,
      \<lparr>h_name = '':authority'', h_value = ''example.com''\<rparr>,
      \<lparr>h_name = ''Accept'', h_value = ''*/*''\<rparr>]"

text \<open>An upload: a \<^verbatim>\<open>PUT\<close> of 1000 bytes.\<close>

definition upload_example :: world where
  "upload_example = idle\<lparr>httpreq := HTTPREQ_PUT, infilesize := 1000\<rparr>"





text \<open>
  The same, with a Headers event in place of the Data events.
\<close>

definition headers_example :: world where
  "headers_example =
     idle\<lparr>h3c := True, recv_ret := [Recv_failed EAGAIN], quiche_conn_stream_recv_ret := [5],
          quiche_h3_conn_poll_ret := [(0, QUICHE_H3_EVENT_HEADERS [('':status'', ''200'')]),
                                      (- 1, QUICHE_H3_EVENT_FINISHED)]\<rparr>"

definition headers_example_after :: world where
  "headers_example_after =
     idle\<lparr>h3c := True,
          trace := [Call_recv, Call_quiche_conn_stream_recv 0 16, Call_quiche_h3_conn_poll,
                    Call_quiche_h3_event_for_each_header [('':status'', ''200'')],
                    Call_quiche_h3_event_free, Call_quiche_h3_conn_poll]\<rparr>"

text \<open>
  A \<^verbatim>\<open>recv\<close> with a Data event, a Headers event and a second Data event; \<open>bodies\<close>
  are the answers of \<^verbatim>\<open>quiche_h3_recv_body\<close>.
\<close>

definition body_reads_example :: "int list \<Rightarrow> world" where
  "body_reads_example bodies =
     idle\<lparr>h3c := True, recv_ret := [Recv_failed EAGAIN], quiche_conn_stream_recv_ret := [5],
          quiche_h3_conn_poll_ret :=
            [(0, QUICHE_H3_EVENT_DATA), (0, QUICHE_H3_EVENT_HEADERS [('':status'', ''200'')]),
             (0, QUICHE_H3_EVENT_DATA), (- 1, QUICHE_H3_EVENT_FINISHED)],
          quiche_h3_recv_body_ret := bodies\<rparr>"

definition body_reads_example_after :: world where
  "body_reads_example_after =
     idle\<lparr>h3c := True,
          trace := [Call_recv, Call_quiche_conn_stream_recv 0 16,
                    Call_quiche_h3_conn_poll, Call_quiche_h3_recv_body 0 16,
                    Call_quiche_h3_event_free,
                    Call_quiche_h3_conn_poll,
                    Call_quiche_h3_event_for_each_header [('':status'', ''200'')],
                    Call_quiche_h3_event_free,
                    Call_quiche_h3_conn_poll, Call_quiche_h3_recv_body 0 16,
                    Call_quiche_h3_event_free,
                    Call_quiche_h3_conn_poll]\<rparr>"


section \<open>Properties\<close>

subsection \<open>The pumps and the poll loop\<close>

lemma process_ingress_feeds:
  assumes "recv_ret w = map Received ds @ rest"
      and "quiche_conn_recv_ret w = rs @ qs"
      and "length rs = length ds"
      and "\<forall>r\<in>set rs. 0 \<le> r"
  shows "process_ingress w =
         process_ingress (w\<lparr>recv_ret := rest, quiche_conn_recv_ret := qs,
                            trace := trace w @ fed ds\<rparr>)"
  using assms
proof (induction ds arbitrary: w rs)
  case Nil
  then show ?case by (cases w) (simp add: fed_def)
next
  case (Cons d ds)
  from Cons.prems obtain r rs' where rs: "rs = r # rs'" "length rs' = length ds"
    by (cases rs) auto
  with Cons.prems have r: "0 \<le> r" "\<forall>r\<in>set rs'. 0 \<le> r" by auto
  let ?w2 = "called (Call_quiche_conn_recv d)
               ((called Call_recv (w\<lparr>recv_ret := map Received ds @ rest\<rparr>))
                  \<lparr>quiche_conn_recv_ret := rs' @ qs\<rparr>)"
  have step: "process_ingress w = process_ingress ?w2"
    using Cons.prems(1,2) rs r(1)
    by (subst process_ingress.simps) (simp add: called_def QUICHE_ERR_DONE_def Let_def)
  have "process_ingress ?w2 =
        process_ingress (?w2\<lparr>recv_ret := rest, quiche_conn_recv_ret := qs,
                              trace := trace ?w2 @ fed ds\<rparr>)"
    by (rule Cons.IH[where rs = rs']) (use rs r in \<open>simp_all add: called_def\<close>)
  also have "?w2\<lparr>recv_ret := rest, quiche_conn_recv_ret := qs, trace := trace ?w2 @ fed ds\<rparr> =
             w\<lparr>recv_ret := rest, quiche_conn_recv_ret := qs, trace := trace w @ fed (d # ds)\<rparr>"
    by (simp add: called_def fed_def)
  finally show ?case using step by simp
qed

lemma process_ingress_stop_recv:
  assumes "recv_ret w = Recv_failed e # rest"
  shows "process_ingress w =
         Some (if e = EAGAIN \<or> e = EWOULDBLOCK then CURLE_OK else CURLE_RECV_ERROR,
               w\<lparr>recv_ret := rest, trace := trace w @ [Call_recv]\<rparr>)"
  using assms by (subst process_ingress.simps) (simp add: called_def)

lemma process_ingress_stop_engine:
  assumes "recv_ret w = Received d # rest" and "quiche_conn_recv_ret w = q # qs" and "q < 0"
  shows "process_ingress w =
         Some (if q = QUICHE_ERR_DONE then CURLE_OK else CURLE_RECV_ERROR,
               w\<lparr>recv_ret := rest, quiche_conn_recv_ret := qs,
                  trace := trace w @ [Call_recv, Call_quiche_conn_recv d]\<rparr>)"
  using assms by (subst process_ingress.simps) (simp add: called_def Let_def)

lemma process_ingress_effect:
  "process_ingress w = Some (c, w') \<Longrightarrow>
   \<exists>cs. w' = w\<lparr>recv_ret := recv_ret w', quiche_conn_recv_ret := quiche_conn_recv_ret w',
                  trace := trace w @ Call_recv # cs\<rparr> \<and>
        (\<forall>x\<in>set cs. ingress_call x)"
proof (induction w arbitrary: c w' rule: process_ingress.induct)
  case (1 w)
  show ?case
  proof (cases "recv_ret w")
    case Nil
    with "1.prems" show ?thesis by (subst (asm) process_ingress.simps) simp
  next
    case (Cons r rs)
    note rr = this
    let ?w1 = "called Call_recv (w\<lparr>recv_ret := rs\<rparr>)"
    show ?thesis
    proof (cases r)
      case (Recv_failed e)
      with "1.prems" rr have "w' = ?w1"
        by (subst (asm) process_ingress.simps) (auto simp: Let_def split: if_splits)
      then show ?thesis by (intro exI[of _ "[]"]) (simp add: called_def)
    next
      case (Received buf)
      note rcv = this
      show ?thesis
      proof (cases "quiche_conn_recv_ret ?w1")
        case Nil
        with "1.prems" rr rcv show ?thesis
          by (subst (asm) process_ingress.simps) (simp add: Let_def)
      next
        case (Cons recvd qs)
        note qq = this
        let ?w2 = "called (Call_quiche_conn_recv buf) (?w1\<lparr>quiche_conn_recv_ret := qs\<rparr>)"
        show ?thesis
        proof (cases "recvd < 0")
          case True
          with "1.prems" rr rcv qq have "w' = ?w2"
            by (subst (asm) process_ingress.simps) (auto simp: Let_def split: if_splits)
          then show ?thesis
            by (intro exI[of _ "[Call_quiche_conn_recv buf]"])
               (simp add: called_def)
        next
          case False
          then have nd: "recvd \<noteq> QUICHE_ERR_DONE" by (simp add: QUICHE_ERR_DONE_def)
          from "1.prems" rr rcv qq False nd have run: "process_ingress ?w2 = Some (c, w')"
            by (subst (asm) process_ingress.simps) (simp add: Let_def)
          have "\<exists>cs. w' = ?w2\<lparr>recv_ret := recv_ret w',
                         quiche_conn_recv_ret := quiche_conn_recv_ret w',
                         trace := trace ?w2 @ Call_recv # cs\<rparr> \<and> (\<forall>x\<in>set cs. ingress_call x)"
            using rr rcv qq nd False run
            by (intro "1.IH"[of r rs ?w1 buf recvd qs ?w2]) simp_all
          then obtain cs where cs: "w' = ?w2\<lparr>recv_ret := recv_ret w',
                         quiche_conn_recv_ret := quiche_conn_recv_ret w',
                         trace := trace ?w2 @ Call_recv # cs\<rparr>" "\<forall>x\<in>set cs. ingress_call x"
            by blast
          show ?thesis
            by (intro exI[of _ "Call_quiche_conn_recv buf # Call_recv # cs"])
               (use cs in \<open>simp add: called_def\<close>)
        qed
      qed
    qed
  qed
qed


text \<open>The poll loop: what it returns and what it leaves of the environment.\<close>

lemma poll_loop_effect:
  "poll_loop b recvd w = Some (n, w') \<Longrightarrow>
   \<exists>cs bodies.
      w' = w\<lparr>quiche_h3_conn_poll_ret := quiche_h3_conn_poll_ret w',
              quiche_h3_recv_body_ret := quiche_h3_recv_body_ret w',
              quiche_conn_close_ret := quiche_conn_close_ret w',
              trace := trace w @ cs\<rparr> \<and>
      (\<forall>x\<in>set cs. \<not> ingress_call x \<and> \<not> egress_call x) \<and>
      quiche_h3_recv_body_ret w = bodies @ quiche_h3_recv_body_ret w' \<and>
      length (filter recv_body_call cs) = length bodies \<and>
      n = (if bodies = [] then recvd else last bodies)"
proof (induction b recvd w arbitrary: n w' rule: poll_loop.induct)
  case (1 b recvd w)
  show ?case
  proof (cases "quiche_h3_conn_poll_ret w")
    case Nil
    with "1.prems" show ?thesis by (subst (asm) poll_loop.simps) simp
  next
    case (Cons p ps)
    obtain s ev where p: "p = (s, ev)" by (cases p)
    note pp = Cons[unfolded p]
    let ?w1 = "called Call_quiche_h3_conn_poll (w\<lparr>quiche_h3_conn_poll_ret := ps\<rparr>)"
    show ?thesis
    proof (cases "s < 0")
      case True
      with "1.prems" pp have "w' = ?w1" "n = recvd"
        by (subst (asm) poll_loop.simps; simp add: Let_def)+
      then show ?thesis
        by (intro exI[of _ "[Call_quiche_h3_conn_poll]"] exI[of _ "[]"])
           (simp add: called_def)
    next
      case False
      note s = this
      show ?thesis
      proof (cases ev)
        case (QUICHE_H3_EVENT_HEADERS hs)
        let ?w2 = "called Call_quiche_h3_event_free
                     (called (Call_quiche_h3_event_for_each_header hs) ?w1)"
        from "1.prems" pp s QUICHE_H3_EVENT_HEADERS
        have run: "poll_loop b recvd ?w2 = Some (n, w')"
          by (subst (asm) poll_loop.simps) (simp add: Let_def)
        from "1.IH"(1)[OF pp[symmetric, THEN sym] refl refl s QUICHE_H3_EVENT_HEADERS run]
        obtain cs bodies where
          "w' = ?w2\<lparr>quiche_h3_conn_poll_ret := quiche_h3_conn_poll_ret w',
              quiche_h3_recv_body_ret := quiche_h3_recv_body_ret w',
              quiche_conn_close_ret := quiche_conn_close_ret w',
              trace := trace ?w2 @ cs\<rparr>"
          "\<forall>x\<in>set cs. \<not> ingress_call x \<and> \<not> egress_call x"
          "quiche_h3_recv_body_ret ?w2 = bodies @ quiche_h3_recv_body_ret w'"
          "length (filter recv_body_call cs) = length bodies"
          "n = (if bodies = [] then recvd else last bodies)"
          by blast
        then show ?thesis
          by (intro exI[of _ "Call_quiche_h3_conn_poll # Call_quiche_h3_event_for_each_header hs
                                # Call_quiche_h3_event_free # cs"] exI[of _ bodies])
             (simp add: called_def)
      next
        case QUICHE_H3_EVENT_DATA
        note ev = this
        show ?thesis
        proof (cases "quiche_h3_recv_body_ret ?w1")
          case Nil
          with "1.prems" pp s ev show ?thesis
            by (subst (asm) poll_loop.simps) (simp add: Let_def)
        next
          case (Cons recvd' bs)
          note bb = this
          let ?w2 = "called Call_quiche_h3_event_free
                       (called (Call_quiche_h3_recv_body s b)
                          (?w1\<lparr>quiche_h3_recv_body_ret := bs\<rparr>))"
          from "1.prems" pp s ev bb
          have run: "poll_loop b recvd' ?w2 = Some (n, w')"
            by (subst (asm) poll_loop.simps) (simp add: Let_def)
          from "1.IH"(2)[OF pp[symmetric, THEN sym] refl refl s ev bb run]
          obtain cs bodies where
            "w' = ?w2\<lparr>quiche_h3_conn_poll_ret := quiche_h3_conn_poll_ret w',
                quiche_h3_recv_body_ret := quiche_h3_recv_body_ret w',
                quiche_conn_close_ret := quiche_conn_close_ret w',
                trace := trace ?w2 @ cs\<rparr>"
            "\<forall>x\<in>set cs. \<not> ingress_call x \<and> \<not> egress_call x"
            "quiche_h3_recv_body_ret ?w2 = bodies @ quiche_h3_recv_body_ret w'"
            "length (filter recv_body_call cs) = length bodies"
            "n = (if bodies = [] then recvd' else last bodies)"
            by blast
          then show ?thesis
            using bb
            by (intro exI[of _ "Call_quiche_h3_conn_poll # Call_quiche_h3_recv_body s b
                                  # Call_quiche_h3_event_free # cs"] exI[of _ "recvd' # bodies"])
               (simp add: called_def)
        qed
      next
        case QUICHE_H3_EVENT_FINISHED
        note ev = this
        show ?thesis
        proof (cases "quiche_conn_close_ret ?w1")
          case Nil
          with "1.prems" pp s ev show ?thesis
            by (subst (asm) poll_loop.simps) (simp add: Let_def)
        next
          case (Cons rc cls)
          note cc = this
          let ?w2 = "called Call_quiche_h3_event_free
                       (called Call_quiche_conn_close
                          (?w1\<lparr>quiche_conn_close_ret := cls\<rparr>))"
          from "1.prems" pp s ev cc
          have run: "poll_loop b recvd ?w2 = Some (n, w')"
            by (subst (asm) poll_loop.simps) (simp add: Let_def)
          from "1.IH"(3)[OF pp[symmetric, THEN sym] refl refl s ev cc run]
          obtain cs bodies where
            "w' = ?w2\<lparr>quiche_h3_conn_poll_ret := quiche_h3_conn_poll_ret w',
                quiche_h3_recv_body_ret := quiche_h3_recv_body_ret w',
                quiche_conn_close_ret := quiche_conn_close_ret w',
                trace := trace ?w2 @ cs\<rparr>"
            "\<forall>x\<in>set cs. \<not> ingress_call x \<and> \<not> egress_call x"
            "quiche_h3_recv_body_ret ?w2 = bodies @ quiche_h3_recv_body_ret w'"
            "length (filter recv_body_call cs) = length bodies"
            "n = (if bodies = [] then recvd else last bodies)"
            by blast
          then show ?thesis
            by (intro exI[of _ "Call_quiche_h3_conn_poll # Call_quiche_conn_close
                                  # Call_quiche_h3_event_free # cs"] exI[of _ bodies])
               (simp add: called_def)
        qed
      qed
    qed
  qed
qed

lemma ingress_not_recv_body: "ingress_call x \<Longrightarrow> \<not> recv_body_call x"
  by (cases x) simp_all

lemma h3_stream_recv_cases:
  assumes "h3_stream_recv w b = Some (r, w')"
  obtains
    (ingress_failed) c where "process_ingress w = Some (c, w')" "c \<noteq> CURLE_OK"
      "r = (- 1, CURLE_RECV_ERROR)"
  | (would_block) w1 rs where "process_ingress w = Some (CURLE_OK, w1)"
      "quiche_conn_stream_recv_ret w1 = QUICHE_ERR_DONE # rs" "r = (- 1, CURLE_AGAIN)"
      "w' = called (Call_quiche_conn_stream_recv 0 b) (w1\<lparr>quiche_conn_stream_recv_ret := rs\<rparr>)"
  | (polled) w1 direct rs n where "process_ingress w = Some (CURLE_OK, w1)"
      "quiche_conn_stream_recv_ret w1 = direct # rs" "direct \<noteq> QUICHE_ERR_DONE"
      "poll_loop b direct
         (called (Call_quiche_conn_stream_recv 0 b) (w1\<lparr>quiche_conn_stream_recv_ret := rs\<rparr>)) =
       Some (n, w')"
      "r = (n, CURLE_OK)"
  using assms
  by (auto simp: h3_stream_recv_def Let_def split: option.splits if_splits list.splits)

lemma h3_stream_recv_effect:
  assumes "h3_stream_recv w b = Some (r, w')"
  shows "\<exists>ci cm. trace w' = trace w @ Call_recv # ci @ cm \<and>
           (\<forall>x\<in>set ci. ingress_call x) \<and>
           (\<forall>x\<in>set cm. \<not> ingress_call x \<and> \<not> egress_call x) \<and>
           (snd r = CURLE_OK \<longrightarrow>
              (\<exists>direct bodies.
                 quiche_conn_stream_recv_ret w = direct # quiche_conn_stream_recv_ret w' \<and>
                 quiche_h3_recv_body_ret w = bodies @ quiche_h3_recv_body_ret w' \<and>
                 length (filter recv_body_call cm) = length bodies \<and>
                 fst r = (if bodies = [] then direct else last bodies)))"
  using assms
proof (cases rule: h3_stream_recv_cases)
  case (ingress_failed c)
  from process_ingress_effect[OF ingress_failed(1)] obtain ci where
    eq: "w' = w\<lparr>recv_ret := recv_ret w', quiche_conn_recv_ret := quiche_conn_recv_ret w',
                trace := trace w @ Call_recv # ci\<rparr>"
    and ci: "\<forall>x\<in>set ci. ingress_call x"
    by blast
  have "trace w' = trace w @ Call_recv # ci" by (subst eq) simp
  with ci ingress_failed(3) show ?thesis
    by (rule_tac x = ci in exI, rule_tac x = "[]" in exI) simp
next
  case (would_block w1 rs)
  from process_ingress_effect[OF would_block(1)] obtain ci where
    eq: "w1 = w\<lparr>recv_ret := recv_ret w1, quiche_conn_recv_ret := quiche_conn_recv_ret w1,
                trace := trace w @ Call_recv # ci\<rparr>"
    and ci: "\<forall>x\<in>set ci. ingress_call x"
    by blast
  have "trace w1 = trace w @ Call_recv # ci" by (subst eq) simp
  with ci would_block(3,4) show ?thesis
    by (rule_tac x = ci in exI, rule_tac x = "[Call_quiche_conn_stream_recv 0 b]" in exI)
       (simp add: called_def)
next
  case (polled w1 direct rs n)
  from process_ingress_effect[OF polled(1)] obtain ci where
    eq: "w1 = w\<lparr>recv_ret := recv_ret w1, quiche_conn_recv_ret := quiche_conn_recv_ret w1,
                trace := trace w @ Call_recv # ci\<rparr>"
    and ci: "\<forall>x\<in>set ci. ingress_call x"
    by blast
  have t1: "trace w1 = trace w @ Call_recv # ci" by (subst eq) simp
  have s1: "quiche_conn_stream_recv_ret w1 = quiche_conn_stream_recv_ret w" by (subst eq) simp
  have b1: "quiche_h3_recv_body_ret w1 = quiche_h3_recv_body_ret w" by (subst eq) simp
  let ?w2 = "called (Call_quiche_conn_stream_recv 0 b) (w1\<lparr>quiche_conn_stream_recv_ret := rs\<rparr>)"
  from poll_loop_effect[OF polled(4)] obtain cs bodies where
    eq': "w' = ?w2\<lparr>quiche_h3_conn_poll_ret := quiche_h3_conn_poll_ret w',
              quiche_h3_recv_body_ret := quiche_h3_recv_body_ret w',
              quiche_conn_close_ret := quiche_conn_close_ret w',
              trace := trace ?w2 @ cs\<rparr>"
    and cs: "\<forall>x\<in>set cs. \<not> ingress_call x \<and> \<not> egress_call x"
    and bodies: "quiche_h3_recv_body_ret ?w2 = bodies @ quiche_h3_recv_body_ret w'"
      "length (filter recv_body_call cs) = length bodies"
      "n = (if bodies = [] then direct else last bodies)"
    by blast
  have t': "trace w' = trace ?w2 @ cs" by (subst eq') simp
  have s': "quiche_conn_stream_recv_ret w' = rs" by (subst eq') (simp add: called_def)
  have direct: "quiche_conn_stream_recv_ret w = direct # quiche_conn_stream_recv_ret w'"
    using polled(2) s1 s' by simp
  have body: "quiche_h3_recv_body_ret w = bodies @ quiche_h3_recv_body_ret w'"
    using bodies(1) b1 by (simp add: called_def)
  have tr: "trace w' = trace w @ Call_recv # ci @ (Call_quiche_conn_stream_recv 0 b # cs)"
    using t1 t' by (simp add: called_def)
  have len: "length (filter recv_body_call (Call_quiche_conn_stream_recv 0 b # cs)) = length bodies"
    using bodies(2) by simp
  have cm: "\<forall>x\<in>set (Call_quiche_conn_stream_recv 0 b # cs). \<not> ingress_call x \<and> \<not> egress_call x"
    using cs by simp
  have val: "fst r = (if bodies = [] then direct else last bodies)"
    using bodies(3) polled(5) by simp
  show ?thesis
    apply (rule exI[of _ ci], rule exI[of _ "Call_quiche_conn_stream_recv 0 b # cs"])
    using direct body tr len cm val ci by blast
qed

text \<open>The poll loop and \<^verbatim>\<open>h3_stream_recv\<close> on an environment that answers every call.\<close>

lemma poll_loop_runs:
  assumes "quiche_h3_conn_poll_ret w = evs @ (s, ev) # ps"
      and "\<forall>p\<in>set evs. 0 \<le> fst p" and "s < 0"
      and "quiche_h3_recv_body_ret w = bodies @ bs"
      and "length bodies = length (filter data_event evs)"
      and "quiche_conn_close_ret w = closes @ cs"
      and "length closes = length (filter finished_event evs)"
  shows "poll_loop b recvd w =
         Some (if bodies = [] then recvd else last bodies,
               w\<lparr>quiche_h3_conn_poll_ret := ps, quiche_h3_recv_body_ret := bs,
                  quiche_conn_close_ret := cs,
                  trace := trace w @ concat (map (event_calls b) evs) @
                           [Call_quiche_h3_conn_poll]\<rparr>)"
  using assms
proof (induction evs arbitrary: w recvd bodies closes)
  case Nil
  then show ?case
    by (subst poll_loop.simps) (cases w, simp add: called_def)
next
  case (Cons p evs)
  obtain s0 e0 where p: "p = (s0, e0)" by (cases p)
  from Cons.prems(2) p have s0: "0 \<le> s0" and pos: "\<forall>p\<in>set evs. 0 \<le> fst p" by auto
  have pr: "quiche_h3_conn_poll_ret w = (s0, e0) # evs @ (s, ev) # ps"
    using Cons.prems(1) p by simp
  let ?w1 = "called Call_quiche_h3_conn_poll (w\<lparr>quiche_h3_conn_poll_ret := evs @ (s, ev) # ps\<rparr>)"
  show ?case
  proof (cases e0)
    case (QUICHE_H3_EVENT_HEADERS hs)
    let ?w2 = "called Call_quiche_h3_event_free
                 (called (Call_quiche_h3_event_for_each_header hs) ?w1)"
    have step: "poll_loop b recvd w = poll_loop b recvd ?w2"
      using pr s0 QUICHE_H3_EVENT_HEADERS by (subst poll_loop.simps) (simp add: Let_def)
    have "poll_loop b recvd ?w2 =
          Some (if bodies = [] then recvd else last bodies,
                ?w2\<lparr>quiche_h3_conn_poll_ret := ps, quiche_h3_recv_body_ret := bs,
                    quiche_conn_close_ret := cs,
                    trace := trace ?w2 @ concat (map (event_calls b) evs) @
                             [Call_quiche_h3_conn_poll]\<rparr>)"
      by (rule Cons.IH[OF _ pos Cons.prems(3)])
         (use Cons.prems p QUICHE_H3_EVENT_HEADERS in \<open>simp_all add: called_def\<close>)
    then show ?thesis
      unfolding step using p QUICHE_H3_EVENT_HEADERS by (simp add: called_def)
  next
    case QUICHE_H3_EVENT_DATA
    from Cons.prems(5) p QUICHE_H3_EVENT_DATA obtain b0 bodies' where
      bodies: "bodies = b0 # bodies'" "length bodies' = length (filter data_event evs)"
      by (cases bodies) auto
    let ?w2 = "called Call_quiche_h3_event_free
                 (called (Call_quiche_h3_recv_body s0 b)
                    (?w1\<lparr>quiche_h3_recv_body_ret := bodies' @ bs\<rparr>))"
    have step: "poll_loop b recvd w = poll_loop b b0 ?w2"
      using pr s0 QUICHE_H3_EVENT_DATA Cons.prems(4) bodies
      by (subst poll_loop.simps) (simp add: Let_def called_def)
    have "poll_loop b b0 ?w2 =
          Some (if bodies' = [] then b0 else last bodies',
                ?w2\<lparr>quiche_h3_conn_poll_ret := ps, quiche_h3_recv_body_ret := bs,
                    quiche_conn_close_ret := cs,
                    trace := trace ?w2 @ concat (map (event_calls b) evs) @
                             [Call_quiche_h3_conn_poll]\<rparr>)"
      by (rule Cons.IH[OF _ pos Cons.prems(3)])
         (use Cons.prems p QUICHE_H3_EVENT_DATA bodies in \<open>simp_all add: called_def\<close>)
    then show ?thesis
      unfolding step using p QUICHE_H3_EVENT_DATA bodies by (simp add: called_def)
  next
    case QUICHE_H3_EVENT_FINISHED
    from Cons.prems(7) p QUICHE_H3_EVENT_FINISHED obtain c0 closes' where
      closes: "closes = c0 # closes'" "length closes' = length (filter finished_event evs)"
      by (cases closes) auto
    let ?w2 = "called Call_quiche_h3_event_free
                 (called Call_quiche_conn_close
                    (?w1\<lparr>quiche_conn_close_ret := closes' @ cs\<rparr>))"
    have step: "poll_loop b recvd w = poll_loop b recvd ?w2"
      using pr s0 QUICHE_H3_EVENT_FINISHED Cons.prems(6) closes
      by (subst poll_loop.simps) (simp add: Let_def called_def)
    have "poll_loop b recvd ?w2 =
          Some (if bodies = [] then recvd else last bodies,
                ?w2\<lparr>quiche_h3_conn_poll_ret := ps, quiche_h3_recv_body_ret := bs,
                    quiche_conn_close_ret := cs,
                    trace := trace ?w2 @ concat (map (event_calls b) evs) @
                             [Call_quiche_h3_conn_poll]\<rparr>)"
      by (rule Cons.IH[OF _ pos Cons.prems(3)])
         (use Cons.prems p QUICHE_H3_EVENT_FINISHED closes in \<open>simp_all add: called_def\<close>)
    then show ?thesis
      unfolding step using p QUICHE_H3_EVENT_FINISHED closes by (simp add: called_def)
  qed
qed

lemma h3_stream_recv_runs:
  assumes ing: "process_ingress w = Some (CURLE_OK, w1)"
      and d: "quiche_conn_stream_recv_ret w = direct # rs" "direct \<noteq> QUICHE_ERR_DONE"
      and ev: "quiche_h3_conn_poll_ret w = evs @ (s, ev) # ps"
         "\<forall>p\<in>set evs. 0 \<le> fst p" "s < 0"
      and bo: "quiche_h3_recv_body_ret w = bodies @ bs"
         "length bodies = length (filter data_event evs)"
      and cl: "quiche_conn_close_ret w = closes @ cs"
         "length closes = length (filter finished_event evs)"
  shows "h3_stream_recv w b =
         Some ((if bodies = [] then direct else last bodies, CURLE_OK),
               w1\<lparr>quiche_conn_stream_recv_ret := rs, quiche_h3_conn_poll_ret := ps,
                   quiche_h3_recv_body_ret := bs, quiche_conn_close_ret := cs,
                   trace := trace w1 @ Call_quiche_conn_stream_recv 0 b #
                            concat (map (event_calls b) evs) @ [Call_quiche_h3_conn_poll]\<rparr>)"
proof -
  from process_ingress_effect[OF ing] obtain ci where
    w1: "w1 = w\<lparr>recv_ret := recv_ret w1, quiche_conn_recv_ret := quiche_conn_recv_ret w1,
                 trace := trace w @ Call_recv # ci\<rparr>"
    by blast
  have f: "quiche_conn_stream_recv_ret w1 = direct # rs"
      "quiche_h3_conn_poll_ret w1 = evs @ (s, ev) # ps"
      "quiche_h3_recv_body_ret w1 = bodies @ bs"
      "quiche_conn_close_ret w1 = closes @ cs"
    using d(1) ev(1) bo(1) cl(1) by (subst w1, simp)+
  let ?w2 = "called (Call_quiche_conn_stream_recv 0 b) (w1\<lparr>quiche_conn_stream_recv_ret := rs\<rparr>)"
  have "poll_loop b direct ?w2 =
        Some (if bodies = [] then direct else last bodies,
              ?w2\<lparr>quiche_h3_conn_poll_ret := ps, quiche_h3_recv_body_ret := bs,
                  quiche_conn_close_ret := cs,
                  trace := trace ?w2 @ concat (map (event_calls b) evs) @
                           [Call_quiche_h3_conn_poll]\<rparr>)"
    by (rule poll_loop_runs[OF _ ev(2,3) _ bo(2) _ cl(2)]) (simp_all add: called_def f)
  then show ?thesis
    using ing f(1) d(2) by (simp add: h3_stream_recv_def Let_def called_def)
qed

subsection \<open>The header lines, one by one\<close>

lemma first_index_append:
  "c \<notin> set xs \<Longrightarrow> first_index c (xs @ c # ys) = Some (length xs)"
  by (induction xs) auto

lemma first_index_None: "c \<notin> set xs \<Longrightarrow> first_index c xs = None"
  by (induction xs) auto

lemma memchr_found:
  assumes "c \<notin> set xs" and "length xs < n"
  shows "memchr (A @ xs @ c # ys) (length A) c n = Some (length A + length xs)"
proof -
  have "take n (xs @ c # ys) = xs @ c # take (n - Suc (length xs)) ys"
    using assms(2) by (simp add: take_Cons')
  then show ?thesis
    using assms(1) by (simp add: memchr_def first_index_append)
qed

lemma scan_colon_takeWhile:
  "scan_colon (A @ l @ rest) (length A) (length A + length l) =
   length A + length (takeWhile (\<lambda>c. c \<noteq> COLON) l)"
proof (induction l arbitrary: A)
  case Nil
  show ?case by (subst scan_colon.simps) simp
next
  case (Cons x l)
  show ?case
  proof (cases "x = COLON")
    case True
    then show ?thesis by (subst scan_colon.simps) simp
  next
    case False
    have "scan_colon (A @ (x # l) @ rest) (length A) (length A + length (x # l)) =
          scan_colon ((A @ [x]) @ l @ rest) (length (A @ [x])) (length (A @ [x]) + length l)"
      using False by (subst scan_colon.simps) simp
    also have "\<dots> = length (A @ [x]) + length (takeWhile (\<lambda>c. c \<noteq> COLON) l)"
      by (rule Cons.IH)
    finally show ?thesis using False by simp
  qed
qed

lemma skip_blanks_takeWhile:
  "skip_blanks (B @ l @ CR # r) (length B) = Some (length B + length (takeWhile blank l))"
proof (induction l arbitrary: B)
  case Nil
  show ?case by (subst skip_blanks.simps) simp
next
  case (Cons x l)
  show ?case
  proof (cases "blank x")
    case False
    then show ?thesis by (subst skip_blanks.simps) (simp add: blank_def)
  next
    case True
    have "skip_blanks (B @ (x # l) @ CR # r) (length B) =
          skip_blanks ((B @ [x]) @ l @ CR # r) (length (B @ [x]))"
      using True by (subst skip_blanks.simps) (auto simp: blank_def)
    also have "\<dots> = Some (length (B @ [x]) + length (takeWhile blank l))"
      by (rule Cons.IH)
    finally show ?thesis using True by simp
  qed
qed

lemma line_name_split:
  assumes "line_name l \<noteq> l"
  shows "l = line_name l @ COLON # drop (Suc (length (line_name l))) l"
proof -
  let ?d = "dropWhile (\<lambda>c. c \<noteq> COLON) l"
  have l: "l = line_name l @ ?d" by (simp add: line_name_def)
  have ne: "?d \<noteq> []"
    using assms by (simp add: line_name_def takeWhile_eq_all_conv dropWhile_eq_Nil_conv)
  then have "hd ?d = COLON" using hd_dropWhile[of "\<lambda>c. c \<noteq> COLON" l] by simp
  with ne have d: "?d = COLON # tl ?d" by (cases ?d) auto
  have "drop (Suc (length (line_name l))) l = tl ?d"
    by (subst l) (simp add: drop_Suc drop_tl[symmetric] del: takeWhile_dropWhile_id)
  with l d show ?thesis by simp
qed

lemma header_lines_step:
  assumes cr: "CR \<notin> set l" and lt: "i < n"
  shows "header_lines (P @ CRLF @ l @ CRLF @ rest) n i (length P) a nva =
         (case line_entry l of
            None \<Rightarrow> Goto_fail
          | Some e \<Rightarrow>
              header_lines (P @ CRLF @ l @ CRLF @ rest) n (Suc i) (length (P @ CRLF @ l))
                (if names_host (line_name l) then i else a) (nva @ [e]))"
proof -
  define A where "A = P @ CRLF"
  define mem where "mem = P @ CRLF @ l @ CRLF @ rest"
  have mem: "mem = A @ l @ CR # LF # rest" by (simp add: mem_def A_def CRLF_def)
  have lenA: "length A = length P + 2" by (simp add: A_def CRLF_def)
  have lenmem: "length mem = length A + length l + 2 + length rest" by (simp add: mem)
  have mc: "memchr mem (length A) CR (length mem - length A) = Some (length A + length l)"
    unfolding mem by (rule memchr_found) (use cr in simp_all)
  show ?thesis
  proof (cases "l = []")
    case True
    then show ?thesis
      unfolding mem_def[symmetric]
      by (subst header_lines.simps)
         (use lt mc lenmem lenA in \<open>simp add: Let_def line_entry_def\<close>)
  next
    case False
    note ne = this
    have hd: "mem ! length A = hd l"
      using ne by (cases l) (simp_all add: mem nth_append)
    define nm where "nm = line_name l"
    have sc: "scan_colon mem (length A) (length A + length l) = length A + length nm"
      unfolding mem nm_def line_name_def by (rule scan_colon_takeWhile)
    have nml: "length nm \<le> length l"
      unfolding nm_def line_name_def by (rule length_takeWhile_le)
    have nm_all: "(length nm = length l) = (nm = l)"
      unfolding nm_def line_name_def
      by (metis takeWhile_dropWhile_id append_eq_conv_conj append_Nil2 length_append
                add_cancel_right_right length_0_conv)
    show ?thesis
    proof (cases "blank (hd l) \<or> nm = [] \<or> nm = l")
      case True
      then have "line_entry l = None"
        by (auto simp: line_entry_def nm_def)
      moreover have "header_lines mem n i (length P) a nva = Goto_fail"
        by (subst header_lines.simps)
           (use lt mc lenmem lenA hd sc nm_all True ne in \<open>auto simp: Let_def blank_def\<close>)
      ultimately show ?thesis by (simp add: mem_def)
    next
      case False
      then have nb: "\<not> blank (hd l)" and n0: "nm \<noteq> []" and nl: "nm \<noteq> l" by auto
      define l2 where "l2 = drop (Suc (length nm)) l"
      have l: "l = nm @ COLON # l2"
        unfolding l2_def nm_def using nl line_name_split[of l] by (simp add: nm_def)
      define tw where "tw = takeWhile blank l2"
      have memB: "mem = (A @ nm @ [COLON]) @ l2 @ CR # (LF # rest)"
        by (subst mem, subst l) simp
      have sk: "skip_blanks mem (Suc (length A + length nm)) =
                Some (Suc (length A + length nm) + length tw)"
        using skip_blanks_takeWhile[of "A @ nm @ [COLON]" l2 "LF # rest"]
        by (simp add: memB tw_def)
      have nmb: "bytes_at mem (length A) (length nm) = nm"
        by (subst mem, subst l) (simp add: bytes_at_def)
      have host: "(length nm = 4 \<and> strncasecompare ''host'' (bytes_at mem (length A) 4) 4) =
                  names_host nm"
        using nmb by (auto simp: names_host_def)
      have twl: "length tw \<le> length l2"
        unfolding tw_def by (rule length_takeWhile_le)
      have l2s: "l2 = tw @ dropWhile blank l2" by (simp add: tw_def)
      have val: "bytes_at mem (Suc (length A + length nm) + length tw)
                   (length A + length l - (Suc (length A + length nm) + length tw)) =
                 dropWhile blank l2"
      proof -
        have m: "mem = (A @ nm @ [COLON] @ tw) @ dropWhile blank l2 @ CR # LF # rest"
          by (subst memB, subst l2s) simp
        have len: "length A + length l - (Suc (length A + length nm) + length tw) =
                   length (dropWhile blank l2)"
          by (subst l, subst l2s) simp
        have d: "drop (Suc (length A + length nm) + length tw) mem =
              dropWhile blank l2 @ CR # LF # rest"
          by (subst m) simp
        show ?thesis
          unfolding bytes_at_def len d by simp
      qed
      have entry: "line_entry l =
                   Some \<lparr>h_name = (if names_host nm then '':authority'' else nm),
                         h_value = dropWhile blank l2\<rparr>"
        using ne nb n0 nl by (simp add: line_entry_def nm_def l2_def)
      have nmne: "length nm \<noteq> length l" using nl nm_all by simp
      have "header_lines mem n i (length P) a nva =
            header_lines mem n (Suc i) (length (P @ CRLF @ l))
              (if names_host nm then i else a)
              (nva @ [\<lparr>h_name = (if names_host nm then '':authority'' else nm),
                       h_value = dropWhile blank l2\<rparr>])"
        by (subst header_lines.simps)
           (use lt mc lenmem lenA hd sc nb n0 nmne sk nmb host val ne in
              \<open>simp add: Let_def blank_def CRLF_def\<close>)
      then show ?thesis
        by (simp add: entry mem_def nm_def)
    qed
  qed
qed

lemma header_lines_refines:
  assumes "\<forall>l\<in>set ls. CR \<notin> set l" and "n = i + length ls"
  shows "header_lines (P @ CRLF @ concat (map (\<lambda>l. l @ CRLF) ls) @ rest) n i (length P) a nva =
         (case lines_entries i a ls of
            None \<Rightarrow> Goto_fail
          | Some (a', es) \<Rightarrow> Parsed (a', nva @ es))"
  using assms
proof (induction ls arbitrary: P i a nva)
  case Nil
  then show ?case by (subst header_lines.simps) simp
next
  case (Cons l ls)
  let ?rest = "concat (map (\<lambda>l. l @ CRLF) ls) @ rest"
  let ?mem = "P @ CRLF @ l @ CRLF @ ?rest"
  have mem: "P @ CRLF @ concat (map (\<lambda>l. l @ CRLF) (l # ls)) @ rest = ?mem" by simp
  have cr: "CR \<notin> set l" and crs: "\<forall>l\<in>set ls. CR \<notin> set l" using Cons.prems(1) by auto
  have lt: "i < n" and n: "n = Suc i + length ls" using Cons.prems(2) by auto
  show ?case
  proof (cases "line_entry l")
    case None
    then show ?thesis
      unfolding mem by (subst header_lines_step[OF cr lt]) simp
  next
    case (Some e)
    let ?a = "if names_host (line_name l) then i else a"
    have "header_lines ?mem n i (length P) a nva =
          header_lines ((P @ CRLF @ l) @ CRLF @ ?rest) n (Suc i) (length (P @ CRLF @ l)) ?a (nva @ [e])"
      by (subst header_lines_step[OF cr lt]) (simp add: Some)
    also have "\<dots> = (case lines_entries (Suc i) ?a ls of
                        None \<Rightarrow> Goto_fail
                      | Some (a', es) \<Rightarrow> Parsed (a', (nva @ [e]) @ es))"
      by (rule Cons.IH[OF crs n])
    finally show ?thesis
      unfolding mem by (simp add: Some split: option.splits)
  qed
qed

lemma header_lines_blank:
  assumes "blank c" and "i < n"
  shows "header_lines (P @ CRLF @ (c # l) @ CRLF @ rest) n i (length P) a nva = Goto_fail"
proof -
  define t where "t = takeWhile (\<lambda>x. x \<noteq> CR) l"
  define u where "u = dropWhile (\<lambda>x. x \<noteq> CR) (l @ CRLF @ rest)"
  have "CR \<in> set (l @ CRLF @ rest)" by (simp add: CRLF_def)
  then have "u \<noteq> []" by (simp add: u_def dropWhile_eq_Nil_conv del: set_append)
  moreover have "hd u = CR" if "u \<noteq> []"
    using hd_dropWhile[of "\<lambda>x. x \<noteq> CR" "l @ CRLF @ rest"] that by (simp add: u_def)
  ultimately obtain u' where u: "u = CR # u'" by (cases u) auto
  define t' where "t' = takeWhile (\<lambda>x. x \<noteq> CR) (l @ CRLF @ rest)"
  have split: "l @ CRLF @ rest = t' @ CR # u'"
    unfolding t'_def u[symmetric] u_def by simp
  have crt: "CR \<notin> set t'" unfolding t'_def by (auto dest: set_takeWhileD)
  have c: "c \<noteq> CR" using assms(1) by (auto simp: blank_def)
  let ?mem = "P @ CRLF @ (c # l) @ CRLF @ rest"
  have mem: "?mem = (P @ CRLF) @ (c # t') @ CR # u'"
    using split by simp
  have le: "memchr ?mem (length P + 2) CR (length ?mem - (length P + 2)) =
            Some (length P + 2 + length (c # t'))"
    unfolding mem
    using memchr_found[of CR "c # t'" "length ((P @ CRLF) @ (c # t') @ CR # u') - (length P + 2)"
            "P @ CRLF" u'] crt c
    by (simp add: CRLF_def)
  have at: "?mem ! (length P + 2) = c"
    by (simp add: nth_append CRLF_def)
  have len: "\<not> length ?mem < length P + 2" by (simp add: CRLF_def)
  show ?thesis
    using assms le at len
    by (subst header_lines.simps) (auto simp: Let_def blank_def)
qed

lemma header_lines_continuation:
  assumes "\<forall>l\<in>set ls. CR \<notin> set l" and "blank c" and "i + length ls < n"
  shows "header_lines (P @ CRLF @ concat (map (\<lambda>l. l @ CRLF) ls) @ (c # l) @ CRLF @ rest)
           n i (length P) a nva = Goto_fail"
  using assms
proof (induction ls arbitrary: P i a nva)
  case Nil
  then show ?case using header_lines_blank[of c i n P l rest a nva] by simp
next
  case (Cons l1 ls)
  let ?rest = "concat (map (\<lambda>l. l @ CRLF) ls) @ (c # l) @ CRLF @ rest"
  let ?mem = "P @ CRLF @ l1 @ CRLF @ ?rest"
  have mem: "P @ CRLF @ concat (map (\<lambda>l. l @ CRLF) (l1 # ls)) @ (c # l) @ CRLF @ rest = ?mem"
    by simp
  have cr: "CR \<notin> set l1" and crs: "\<forall>l\<in>set ls. CR \<notin> set l" using Cons.prems(1) by auto
  have lt: "i < n" and n: "Suc i + length ls < n" using Cons.prems(3) by auto
  show ?case
  proof (cases "line_entry l1")
    case None
    then show ?thesis
      unfolding mem by (subst header_lines_step[OF cr lt]) simp
  next
    case (Some e)
    let ?a = "if names_host (line_name l1) then i else a"
    have "header_lines ?mem n i (length P) a nva =
          header_lines ((P @ CRLF @ l1) @ CRLF @ ?rest) n (Suc i) (length (P @ CRLF @ l1)) ?a
            (nva @ [e])"
      by (subst header_lines_step[OF cr lt]) (simp add: Some)
    also have "\<dots> = Goto_fail"
      by (rule Cons.IH[OF crs Cons.prems(2) n])
    finally show ?thesis unfolding mem .
  qed
qed

lemma crlf_pairs_short: "length xs \<le> 1 \<Longrightarrow> crlf_pairs xs = 0"
  by (cases xs rule: crlf_pairs.cases) simp_all

lemma count_headers_crlf_pairs:
  "0 < i \<Longrightarrow> count_headers mem i n = n + crlf_pairs (drop (i - 1) mem)"
proof (induction mem i n rule: count_headers.induct)
  case (1 hdbuf i nheader)
  show ?case
  proof (cases "i < length hdbuf")
    case False
    then have "length (drop (i - 1) hdbuf) \<le> 1" by simp
    then have "crlf_pairs (drop (i - 1) hdbuf) = 0"
      by (rule crlf_pairs_short)
    with False show ?thesis by (subst count_headers.simps) simp
  next
    case True
    have d1: "drop (i - 1) hdbuf = hdbuf ! (i - 1) # drop (Suc (i - 1)) hdbuf"
      using True by (intro Cons_nth_drop_Suc[symmetric]) simp
    have d2: "drop i hdbuf = hdbuf ! i # drop (Suc i) hdbuf"
      using True by (intro Cons_nth_drop_Suc[symmetric])
    have d: "drop (i - 1) hdbuf = hdbuf ! (i - 1) # hdbuf ! i # drop (Suc i) hdbuf"
      using "1.prems" d1 d2 by simp
    have cp: "crlf_pairs (drop (i - 1) hdbuf) =
              (if hdbuf ! (i - 1) = CR \<and> hdbuf ! i = LF
               then Suc (crlf_pairs (drop (Suc i) hdbuf)) else crlf_pairs (drop i hdbuf))"
      unfolding d by (simp add: d2)
    show ?thesis
    proof (cases "hdbuf ! i = LF \<and> hdbuf ! (i - 1) = CR")
      case pair: True
      have "count_headers hdbuf i nheader = count_headers hdbuf (i + 2) (nheader + 1)"
        using True pair by (subst count_headers.simps) simp
      also have "\<dots> = nheader + 1 + crlf_pairs (drop (i + 2 - 1) hdbuf)"
        using "1.IH"(1)[OF True pair] by simp
      finally show ?thesis using pair cp by simp
    next
      case nopair: False
      have "count_headers hdbuf i nheader = count_headers hdbuf (i + 1) nheader"
        using True nopair by (subst count_headers.simps) auto
      also have "\<dots> = nheader + crlf_pairs (drop (i + 1 - 1) hdbuf)"
        using "1.IH"(2)[OF True nopair] by simp
      finally show ?thesis using nopair cp by auto
    qed
  qed
qed

lemma crlf_pairs_line:
  "CR \<notin> set l \<Longrightarrow> crlf_pairs (l @ CRLF @ r) = Suc (crlf_pairs r)"
proof (induction l)
  case Nil
  show ?case by (simp add: CRLF_def)
next
  case (Cons a l)
  then show ?case by (cases l) (auto simp: CRLF_def)
qed

lemma crlf_pairs_lines:
  "\<forall>l\<in>set ls. CR \<notin> set l \<Longrightarrow>
   crlf_pairs (concat (map (\<lambda>l. l @ CRLF) ls) @ r) = length ls + crlf_pairs r"
  by (induction ls) (simp_all add: crlf_pairs_line)

lemma crlf_pairs_after:
  "Suc (crlf_pairs r) \<le> crlf_pairs (xs @ CRLF @ r)"
proof (induction xs rule: crlf_pairs.induct)
  case (1 a b r')
  show ?case
  proof (cases "a = CR \<and> b = LF")
    case True
    from "1.IH"(1)[OF True] show ?thesis using True by simp
  next
    case False
    from "1.IH"(2)[OF False] show ?thesis using False by auto
  qed
qed (simp_all add: CRLF_def)

lemma count_headers_lines_block:
  assumes "CR \<notin> set l0" and "\<forall>l\<in>set ls. CR \<notin> set l"
  shows "count_headers (lines_block l0 ls) 1 0 = length ls + 2"
proof -
  have "crlf_pairs (lines_block l0 ls) = Suc (length ls + crlf_pairs CRLF)"
    unfolding lines_block_def using assms
    by (simp add: crlf_pairs_line crlf_pairs_lines)
  then show ?thesis
    by (simp add: count_headers_crlf_pairs CRLF_def)
qed

subsection \<open>The request line\<close>

lemma scan_back_found:
  "SP \<notin> set v \<Longrightarrow>
   scan_back (A @ p @ SP # v @ rest) (length A) (Suc (length p + length v)) =
   Some (length A + length p)"
proof (induction v arbitrary: rest rule: rev_induct)
  case Nil
  show ?case by (simp add: nth_append)
next
  case (snoc x v)
  have "(A @ p @ SP # (v @ [x]) @ rest) ! (length A + Suc (length p + length v)) = x"
    by (simp add: nth_append)
  moreover have "x \<noteq> SP" using snoc.prems by auto
  ultimately have "scan_back (A @ p @ SP # (v @ [x]) @ rest) (length A)
                     (Suc (length p + length (v @ [x]))) =
                   scan_back (A @ p @ SP # v @ (x # rest)) (length A) (Suc (length p + length v))"
    by simp
  also have "\<dots> = Some (length A + length p)"
    using snoc.prems by (intro snoc.IH) simp
  finally show ?case .
qed

lemma scan_back_None:
  "SP \<notin> set r \<Longrightarrow> k \<le> length r \<Longrightarrow> scan_back (A @ r @ rest) (length A) k = None"
proof (induction k)
  case 0
  show ?case by simp
next
  case (Suc k)
  then have "(A @ r @ rest) ! (length A + k) = r ! k" by (simp add: nth_append)
  moreover have "r ! k \<noteq> SP" using Suc.prems by (metis Suc_le_lessD nth_mem)
  ultimately show ?case using Suc by simp
qed

text \<open>The request line of a well-formed request.\<close>

lemma request_line_wf:
  assumes "wf_request method path version"
  shows "request_line encrypted (method @ SP # path @ SP # version @ CR # rest) =
         Parsed (length (method @ SP # path @ SP # version),
                 pseudo_headers encrypted method path)"
proof -
  define l0 where "l0 = method @ SP # path @ SP # version"
  define mem where "mem = method @ SP # path @ SP # version @ CR # rest"
  from assms have m: "method \<noteq> []" "SP \<notin> set method" "CR \<notin> set method"
    and p: "path \<noteq> []" "CR \<notin> set path" and v: "SP \<notin> set version" "CR \<notin> set version"
    by (auto simp: wf_request_def)
  have mem0: "mem = [] @ l0 @ CR # rest" by (simp add: mem_def l0_def)
  have cr: "CR \<notin> set l0" using m p v by (simp add: l0_def)
  have c1: "memchr mem 0 CR (length mem) = Some (length l0)"
    using memchr_found[of CR l0 "length mem" "[]" rest] cr by (simp add: mem0)
  have mem1: "mem = [] @ method @ SP # (path @ SP # version @ CR # rest)" by (simp add: mem_def)
  have c2: "memchr mem 0 SP (length l0) = Some (length method)"
    using memchr_found[of SP "method" "length l0" "[]" "path @ SP # version @ CR # rest"] m
    by (simp add: mem1 l0_def)
  have b1: "bytes_at mem 0 (length method) = method"
    by (simp add: bytes_at_def mem_def)
  have mem2: "mem = (method @ [SP]) @ path @ SP # version @ (CR # rest)" by (simp add: mem_def)
  have c3: "scan_back mem (Suc (length method)) (length l0 - Suc (length method)) =
            Some (Suc (length method) + length path)"
    using scan_back_found[of version "method @ [SP]" path "CR # rest"] v
    by (simp add: mem2 l0_def)
  have b2: "bytes_at mem (Suc (length method)) (length path) = path"
    by (simp add: bytes_at_def mem2)
  show ?thesis
    unfolding mem_def[symmetric] l0_def[symmetric]
    using c1 c2 c3 b1 b2 m(1) p(1)
    by (simp add: request_line_def Let_def pseudo_headers_def)
qed

text \<open>A request line without a method or without a path.\<close>

lemma split_first_space:
  assumes "SP \<notin> set m"
  shows "before_first_space (m @ SP # r) = m" and "after_first_space (m @ SP # r) = r"
proof -
  have t: "takeWhile (\<lambda>c. c \<noteq> SP) (m @ SP # r) = m"
    using assms by (induction m) auto
  have d: "dropWhile (\<lambda>c. c \<noteq> SP) (m @ SP # r) = SP # r"
    using assms by (induction m) auto
  show "before_first_space (m @ SP # r) = m" by (simp add: before_first_space_def t)
  show "after_first_space (m @ SP # r) = r" by (simp add: after_first_space_def d)
qed

lemma split_last_space:
  assumes "SP \<notin> set v"
  shows "before_last_space (p @ SP # v) = p"
proof -
  have "dropWhile (\<lambda>c. c \<noteq> SP) (rev v @ SP # rev p) = SP # rev p"
    using assms by (induction v rule: rev_induct) auto
  then show ?thesis by (simp add: before_last_space_def)
qed

lemma request_line_malformed:
  assumes "no_method_or_path (takeWhile (\<lambda>c. c \<noteq> CR) mem)"
  shows "request_line encrypted mem = Goto_fail"
proof (cases "CR \<in> set mem")
  case False
  then have "memchr mem 0 CR (length mem) = None"
    by (simp add: memchr_def first_index_None)
  then show ?thesis by (simp add: request_line_def)
next
  case True
  define l0 where "l0 = takeWhile (\<lambda>c. c \<noteq> CR) mem"
  define rest where "rest = tl (dropWhile (\<lambda>c. c \<noteq> CR) mem)"
  have d: "dropWhile (\<lambda>c. c \<noteq> CR) mem \<noteq> []" using True by (simp add: dropWhile_eq_Nil_conv)
  then have "hd (dropWhile (\<lambda>c. c \<noteq> CR) mem) = CR"
    using hd_dropWhile[of "\<lambda>c. c \<noteq> CR" mem] by simp
  with d have "dropWhile (\<lambda>c. c \<noteq> CR) mem = CR # rest"
    unfolding rest_def by (cases "dropWhile (\<lambda>c. c \<noteq> CR) mem") auto
  then have mem: "mem = l0 @ CR # rest"
    unfolding l0_def by (metis takeWhile_dropWhile_id)
  have cr: "CR \<notin> set l0"
    unfolding l0_def by (auto dest: set_takeWhileD)
  have bad: "no_method_or_path l0" using assms by (simp add: l0_def)
  have c1: "memchr mem 0 CR (length mem) = Some (length l0)"
    using memchr_found[of CR l0 "length mem" "[]" rest] cr by (simp add: mem)
  show ?thesis
  proof (cases "SP \<in> set l0")
    case False
    then have "memchr mem 0 SP (length l0) = None"
      by (simp add: memchr_def mem first_index_None)
    with c1 show ?thesis by (simp add: request_line_def)
  next
    case True
    then obtain m r where l0: "l0 = m @ SP # r" and m: "SP \<notin> set m"
      by (meson split_list_first)
    have mem1: "mem = [] @ m @ SP # (r @ CR # rest)" by (simp add: mem l0)
    have c2: "memchr mem 0 SP (length l0) = Some (length m)"
      using memchr_found[of SP m "length l0" "[]" "r @ CR # rest"] m
      by (simp add: mem1 l0)
    have parts: "before_first_space l0 = m" "after_first_space l0 = r"
      unfolding l0 using split_first_space[OF m] by simp_all
    show ?thesis
    proof (cases "m = []")
      case True
      with c1 c2 show ?thesis by (simp add: request_line_def)
    next
      case mne: False
      show ?thesis
      proof (cases "SP \<in> set r")
        case False
        have mem2: "mem = (m @ [SP]) @ r @ (CR # rest)" by (simp add: mem l0)
        have c3: "scan_back mem (Suc (length m)) (length l0 - Suc (length m)) = None"
          using scan_back_None[of r "length r" "m @ [SP]" "CR # rest"] False
          by (simp add: mem2 l0)
        from c1 c2 c3 show ?thesis
          by (simp add: request_line_def Let_def)
      next
        case True
        then obtain p v where r: "r = p @ SP # v" and v: "SP \<notin> set v"
          by (meson split_list_last)
        have "before_last_space r = p"
          unfolding r by (rule split_last_space[OF v])
        with bad l0 parts mne True have p: "p = []"
          by (simp add: no_method_or_path_def)
        have mem2: "mem = (m @ [SP]) @ p @ SP # v @ (CR # rest)" by (simp add: mem l0 r)
        have c3: "scan_back mem (Suc (length m)) (length l0 - Suc (length m)) =
                  Some (Suc (length m) + length p)"
          using scan_back_found[of v "m @ [SP]" p "CR # rest"] v
          by (simp add: mem2 l0 r)
        from c1 c2 c3 p show ?thesis
          by (simp add: request_line_def Let_def)
      qed
    qed
  qed
qed

subsection \<open>The place of the authority entry, and well-formed header lines\<close>

lemma shift_back_nth:
  assumes "AUTHORITY_DST_IDX \<le> i" and "i < length nva"
  shows "snd (shift_back nva i) = AUTHORITY_DST_IDX \<and>
         length (fst (shift_back nva i)) = length nva \<and>
         (\<forall>j<length nva. fst (shift_back nva i) ! j =
            (if AUTHORITY_DST_IDX < j \<and> j \<le> i then nva ! (j - 1) else nva ! j))"
  using assms
proof (induction nva i rule: shift_back.induct)
  case (1 nva i)
  show ?case
  proof (cases "AUTHORITY_DST_IDX < i")
    case False
    with "1.prems" show ?thesis by (subst (1 2 3) shift_back.simps) auto
  next
    case True
    let ?nva = "nva[i := nva ! (i - 1)]"
    have eq: "shift_back nva i = shift_back ?nva (i - 1)"
      using True by (subst shift_back.simps) simp
    have IH: "snd (shift_back ?nva (i - 1)) = AUTHORITY_DST_IDX \<and>
         length (fst (shift_back ?nva (i - 1))) = length ?nva \<and>
         (\<forall>j<length ?nva. fst (shift_back ?nva (i - 1)) ! j =
            (if AUTHORITY_DST_IDX < j \<and> j \<le> i - 1 then ?nva ! (j - 1) else ?nva ! j))"
      using True "1.prems" by (intro "1.IH") simp_all
    show ?thesis
      unfolding eq using IH True "1.prems"
      by (auto simp: nth_list_update)
  qed
qed

lemma move_authority_nth:
  assumes "AUTHORITY_DST_IDX < k" and "k < length nva"
  shows "length (move_authority k nva) = length nva \<and>
         (\<forall>j<length nva. move_authority k nva ! j =
            (if j = AUTHORITY_DST_IDX then nva ! k
             else if AUTHORITY_DST_IDX < j \<and> j \<le> k then nva ! (j - 1) else nva ! j))"
proof -
  have sb: "snd (shift_back nva k) = AUTHORITY_DST_IDX"
     "length (fst (shift_back nva k)) = length nva"
     "\<And>j. j < length nva \<Longrightarrow> fst (shift_back nva k) ! j =
            (if AUTHORITY_DST_IDX < j \<and> j \<le> k then nva ! (j - 1) else nva ! j)"
    using shift_back_nth[of k nva] assms by auto
  have m: "move_authority k nva = (fst (shift_back nva k))[AUTHORITY_DST_IDX := nva ! k]"
    using assms sb(1) by (cases "shift_back nva k") (auto simp: move_authority_def Let_def)
  show ?thesis
    unfolding m using sb(2,3) assms by (auto simp: nth_list_update)
qed

lemma move_authority_id:
  "k = 0 \<or> k = AUTHORITY_DST_IDX \<Longrightarrow> move_authority k nva = nva"
  by (auto simp: move_authority_def)

lemma header_line_no_CR:
  assumes "wf_header h"
  shows "CR \<notin> set (header_line h)"
proof -
  obtain name ows v where h: "h = (name, ows, v)" by (cases h)
  from assms have n: "CR \<notin> set name" and o: "list_all blank ows" and v: "CR \<notin> set v"
    by (simp_all add: wf_header_def h)
  have "\<not> blank CR" by (simp add: blank_def)
  with o have "CR \<notin> set ows" by (auto simp: list_all_iff)
  with n v show ?thesis by (simp add: h header_line_def)
qed

lemma line_entry_wf:
  assumes "wf_header h"
  shows "line_entry (header_line h) = Some (header_entry h)"
    and "line_name (header_line h) = fst h"
proof -
  obtain name ows v where h: "h = (name, ows, v)" by (cases h)
  from assms have n: "name \<noteq> []" "\<not> blank (hd name)" "COLON \<notin> set name"
    and o: "list_all blank ows" and v: "v = [] \<or> \<not> blank (hd v)"
    by (auto simp: wf_header_def h)
  have "takeWhile (\<lambda>c. c \<noteq> COLON) (name @ COLON # r) = name" for r
    using n(3) by (induction name) auto
  then have nm: "line_name (name @ COLON # ows @ v) = name"
    by (simp add: line_name_def)
  have "dropWhile blank v = v"
    using v by (cases v) auto
  then have dw: "dropWhile blank (ows @ v) = v"
    using o by (induction ows) auto
  show "line_name (header_line h) = fst h" by (simp add: h header_line_def nm)
  have hd: "hd (name @ COLON # ows @ v) = hd name"
    using n(1) by simp
  have ne: "name \<noteq> name @ COLON # ows @ v"
    by simp
  show "line_entry (header_line h) = Some (header_entry h)"
    unfolding h header_line_def line_entry_def header_entry_def prod.case nm hd
    using n(1,2) ne dw by simp
qed

lemma lines_entries_wf:
  "\<forall>h\<in>set hs. wf_header h \<Longrightarrow>
   lines_entries i a (map header_line hs) = Some (authority_index i a hs, map header_entry hs)"
proof (induction hs arbitrary: i a)
  case Nil
  show ?case by simp
next
  case (Cons h hs)
  then have w: "wf_header h" and ws: "\<forall>h\<in>set hs. wf_header h" by simp_all
  show ?case
    by (simp add: line_entry_wf[OF w] Cons.IH[OF ws])
qed

lemma authority_index_none:
  "\<forall>h\<in>set hs. \<not> names_host (fst h) \<Longrightarrow> authority_index i a hs = a"
  by (induction hs arbitrary: i a) simp_all

lemma authority_index_last:
  assumes "j < length hs" and "names_host (fst (hs ! j))"
      and "\<forall>h\<in>set (drop (Suc j) hs). \<not> names_host (fst h)"
  shows "authority_index i a hs = i + j"
  using assms
proof (induction hs arbitrary: i a j)
  case Nil
  then show ?case by simp
next
  case (Cons h hs)
  show ?case
  proof (cases j)
    case 0
    with Cons.prems show ?thesis by (simp add: authority_index_none)
  next
    case (Suc j')
    with Cons.prems have "authority_index (Suc i) (if names_host (fst h) then i else a) hs = Suc i + j'"
      by (intro Cons.IH) simp_all
    with Suc show ?thesis by simp
  qed
qed

lemma authority_index_range:
  "authority_index i a hs = a \<or> (i \<le> authority_index i a hs \<and> authority_index i a hs < i + length hs)"
proof (induction hs arbitrary: i a)
  case Nil
  show ?case by simp
next
  case (Cons h hs)
  from Cons.IH[of "Suc i" "if names_host (fst h) then i else a"]
  show ?case by (auto split: if_splits)
qed

subsection \<open>The translation of whole blocks\<close>

lemma lines_block_request:
  "lines_block l0 ls = l0 @ CR # (LF # concat (map (\<lambda>l. l @ CRLF) ls) @ CRLF)"
  by (simp add: lines_block_def CRLF_def)

lemma translate_wellformed:
  assumes "wf_request method path version" and "\<forall>h\<in>set hs. wf_header h"
  shows "translate encrypted True (header_block method path version hs) =
         Parsed (move_authority (authority_index 3 0 hs)
                   (pseudo_headers encrypted method path @ map header_entry hs))"
proof -
  define l0 where "l0 = method @ SP # path @ SP # version"
  define ls where "ls = map header_line hs"
  define mem where "mem = lines_block l0 ls"
  have cr0: "CR \<notin> set l0"
    using assms(1) by (simp add: l0_def wf_request_def)
  have crs: "\<forall>l\<in>set ls. CR \<notin> set l"
    using assms(2) by (auto simp: ls_def header_line_no_CR)
  have cnt: "count_headers mem (Suc 0) 0 = length hs + 2"
    unfolding mem_def using count_headers_lines_block[OF cr0 crs] by (simp add: ls_def)
  have rl: "request_line encrypted mem = Parsed (length l0, pseudo_headers encrypted method path)"
    unfolding mem_def lines_block_request l0_def
    using request_line_wf[OF assms(1)] by simp
  have "header_lines (l0 @ CRLF @ concat (map (\<lambda>l. l @ CRLF) ls) @ CRLF) (Suc (Suc (Suc (length hs)))) 3
          (length l0) 0 (pseudo_headers encrypted method path) =
        (case lines_entries 3 0 ls of
           None \<Rightarrow> Goto_fail
         | Some (a', es) \<Rightarrow> Parsed (a', pseudo_headers encrypted method path @ es))"
    by (rule header_lines_refines[OF crs]) (simp add: ls_def)
  then have hl: "header_lines mem (Suc (Suc (Suc (length hs)))) 3 (length l0) 0
                   (pseudo_headers encrypted method path) =
                 Parsed (authority_index 3 0 hs,
                         pseudo_headers encrypted method path @ map header_entry hs)"
    using lines_entries_wf[OF assms(2)] by (simp add: mem_def lines_block_def ls_def)
  have "translate encrypted True mem =
        Parsed (move_authority (authority_index 3 0 hs)
                  (pseudo_headers encrypted method path @ map header_entry hs))"
    by (simp add: translate_def fill_nva_def cnt rl hl Let_def)
  then show ?thesis
    by (simp add: mem_def header_block_def l0_def ls_def)
qed

lemma request_line_result:
  "request_line encrypted mem = Goto_fail \<or>
   (\<exists>le nva. request_line encrypted mem = Parsed (le, nva) \<and>
              memchr mem 0 CR (length mem) = Some le)"
  by (auto simp: request_line_def Let_def split: option.splits)

lemma translate_reaches_continuation:
  assumes "CR \<notin> set l0" and "\<forall>l\<in>set ls. CR \<notin> set l" and "blank c"
      and "0 < crlf_pairs rest"
  shows "translate encrypted True
           (l0 @ CRLF @ concat (map (\<lambda>l. l @ CRLF) ls) @ (c # l) @ CRLF @ rest) = Goto_fail"
proof -
  define mem where "mem = l0 @ CRLF @ concat (map (\<lambda>l. l @ CRLF) ls) @ (c # l) @ CRLF @ rest"
  define n where "n = count_headers mem (Suc 0) 0"
  have "crlf_pairs mem = Suc (length ls + crlf_pairs ((c # l) @ CRLF @ rest))"
    unfolding mem_def using assms(1,2)
    by (simp add: crlf_pairs_line crlf_pairs_lines)
  moreover have "Suc (crlf_pairs rest) \<le> crlf_pairs ((c # l) @ CRLF @ rest)"
    by (rule crlf_pairs_after)
  ultimately have cnt: "length ls + 3 \<le> n"
    using assms(4) by (simp add: n_def count_headers_crlf_pairs)
  have le: "memchr mem 0 CR (length mem) = Some (length l0)"
    using memchr_found[of CR l0 "length mem" "[]"
            "LF # concat (map (\<lambda>l. l @ CRLF) ls) @ (c # l) @ CRLF @ rest"]
          assms(1)
    by (simp add: mem_def CRLF_def)
  have hl: "header_lines mem (Suc n) 3 (length l0) 0 nva = Goto_fail" for nva
    unfolding mem_def
    by (rule header_lines_continuation[OF assms(2,3)]) (use cnt in simp)
  from request_line_result[of encrypted mem]
  have "fill_nva encrypted mem (Suc n) = Goto_fail"
  proof
    assume "request_line encrypted mem = Goto_fail"
    then show ?thesis by (simp add: fill_nva_def)
  next
    assume "\<exists>le nva. request_line encrypted mem = Parsed (le, nva) \<and>
              memchr mem 0 CR (length mem) = Some le"
    then obtain nva where "request_line encrypted mem = Parsed (length l0, nva)"
      using le by auto
    then show ?thesis by (simp add: fill_nva_def hl)
  qed
  then show ?thesis
    unfolding mem_def[symmetric] using cnt
    by (simp add: translate_def Let_def n_def[symmetric])
qed

lemma translate_malformed_request_line:
  assumes "no_method_or_path (takeWhile (\<lambda>c. c \<noteq> CR) mem)"
  shows "translate encrypted True mem = Goto_fail"
  using request_line_malformed[OF assms, of encrypted]
  by (simp add: translate_def fill_nva_def Let_def)

lemma request_line_parts:
  assumes "wf_request method path version"
  shows "before_first_space (method @ SP # path @ SP # version) = method"
    and "before_last_space (after_first_space (method @ SP # path @ SP # version)) = path"
proof -
  from assms have m: "SP \<notin> set method" and v: "SP \<notin> set version"
    by (simp_all add: wf_request_def)
  have t: "takeWhile (\<lambda>c. c \<noteq> SP) (xs @ SP # r) = xs" if "SP \<notin> set xs" for xs r
    using that by (induction xs) auto
  have d: "dropWhile (\<lambda>c. c \<noteq> SP) (xs @ SP # r) = SP # r" if "SP \<notin> set xs" for xs r
    using that by (induction xs) auto
  show "before_first_space (method @ SP # path @ SP # version) = method"
    by (simp add: before_first_space_def t[OF m])
  have "after_first_space (method @ SP # path @ SP # version) = path @ SP # version"
    by (simp add: after_first_space_def d[OF m])
  moreover have "before_last_space (path @ SP # version) = path"
    using d[of "rev version" "rev path"] v by (simp add: before_last_space_def)
  ultimately show "before_last_space (after_first_space (method @ SP # path @ SP # version)) = path"
    by simp
qed

lemma translated_prefix:
  assumes "length pre = 3"
  shows "length (move_authority (authority_index 3 0 hs) (pre @ map header_entry hs)) =
           length hs + 3 \<and>
         take 3 (move_authority (authority_index 3 0 hs) (pre @ map header_entry hs)) = pre"
proof -
  let ?k = "authority_index 3 0 hs"
  let ?nva = "pre @ map header_entry hs"
  have len: "length ?nva = length hs + 3" using assms by simp
  from authority_index_range[of 3 0 hs]
  consider "?k = 0 \<or> ?k = AUTHORITY_DST_IDX" | "AUTHORITY_DST_IDX < ?k" "?k < length ?nva"
    using len by (fastforce simp: AUTHORITY_DST_IDX_def)
  then show ?thesis
  proof cases
    case 1
    then show ?thesis using assms by (simp add: move_authority_id)
  next
    case 2
    from move_authority_nth[OF 2]
    have l: "length (move_authority ?k ?nva) = length ?nva"
      and n: "\<And>j. j < length ?nva \<Longrightarrow> move_authority ?k ?nva ! j =
            (if j = AUTHORITY_DST_IDX then ?nva ! ?k
             else if AUTHORITY_DST_IDX < j \<and> j \<le> ?k then ?nva ! (j - 1) else ?nva ! j)"
      by blast+
    have "take 3 (move_authority ?k ?nva) = take 3 ?nva"
      using l len n assms by (intro nth_equalityI) (auto simp: AUTHORITY_DST_IDX_def nth_append)
    with l len assms show ?thesis by simp
  qed
qed

lemma example_block:
  "header_block ''GET'' ''/index.html'' ''HTTP/1.1''
     [(''Host'', '' '', ''example.com''), (''Accept'', '' '', ''*/*'')] = example_request @ CRLF"
  by (simp add: header_block_def lines_block_def header_line_def example_request_def)

lemma example_wf:
  "wf_request ''GET'' ''/index.html'' ''HTTP/1.1''"
  "\<forall>h\<in>set [(''Host'', '' '', ''example.com''), (''Accept'', '' '', ''*/*'')]. wf_header h"
  by (simp_all add: wf_request_def wf_header_def blank_def)

subsection \<open>The example request\<close>

text \<open>
  Claim C3, as stated: on an encrypted connection the translation of the example
  request is the list of five entries \<open>example_headers\<close>. It is not: the loop over
  the header lines runs once per CRLF pair beyond the first two, the example has three
  pairs, and the line \<^verbatim>\<open>Accept: */*\<close> is never read.
\<close>

theorem example_request_counterexample:
  "translate True True example_request \<noteq> Parsed example_headers"
  by code_simp

text \<open>
  Claim C3, amended: the example request followed by the empty line that ends a header
  block is translated to the five entries of the claim, in that order; the example
  request as written, without that line, is translated to the first four of them.
\<close>

theorem example_request_translation:
  "translate True True (example_request @ CRLF) = Parsed example_headers \<and>
   translate True True example_request = Parsed (take 4 example_headers)"
  by code_simp

subsection \<open>The request driver\<close>

lemma http_request_Parsed:
  assumes "translate (ssl w) (malloc_ok w) mem = Parsed nva"
  shows "http_request w mem =
         submit nva
           (w\<lparr>h3c := True,
              trace := trace w @ [Call_quiche_h3_config_new, Call_quiche_h3_conn_new_with_transport,
                                  Call_malloc (count_headers mem 1 0 + 1)],
              heap_blocks := heap_blocks w + 1\<rparr>)"
  using assms
  by (auto simp: translate_def http_request_def Let_def called_def split: if_splits)

lemma http_request_Goto_fail:
  assumes "translate (ssl w) (malloc_ok w) mem = Goto_fail"
  shows "http_request w mem =
         (Inr CURLE_SEND_ERROR,
          w\<lparr>h3c := True,
             trace := trace w @ [Call_quiche_h3_config_new, Call_quiche_h3_conn_new_with_transport] @
                      (if count_headers mem 1 0 < 2 then []
                       else [Call_malloc (count_headers mem 1 0 + 1)]) @ [Call_free]\<rparr>)"
  using assms
  by (auto simp: translate_def http_request_def Let_def called_def fail_def free_nva_def
           split: if_splits)

lemma submit_trace:
  "trace (snd (submit nva w)) =
     trace w @ (if MAX_ACC < cumulative_length nva then [Call_infof_size_warning] else []) @
     (if is_upload (httpreq w) then [] else [Call_quiche_h3_send_request nva True]) @ [Call_free]"
  by (simp add: submit_def Let_def called_def free_nva_def split: prod.splits)

lemma submit_result:
  "fst (submit nva w) =
     (if is_upload (httpreq w) then Inl Read_uninitialized
      else if send_request_ret w < 0 then Inr CURLE_SEND_ERROR else Inr CURLE_OK)"
  by (simp add: submit_def Let_def called_def free_nva_def split: prod.splits)

lemma submit_upload_left:
  "is_upload (httpreq w) \<Longrightarrow>
   upload_left (snd (submit nva w)) = (if infilesize w \<noteq> - 1 then infilesize w else - 1)"
  by (simp add: submit_def Let_def called_def free_nva_def split: prod.splits)

lemma foldl_add_sum:
  fixes f :: "'a \<Rightarrow> nat"
  shows "foldl (\<lambda>acc h. acc + f h) a xs = a + sum_list (map f xs)"
  by (induction xs arbitrary: a) simp_all

lemma cumulative_length_sum:
  "cumulative_length nva = (\<Sum>h\<leftarrow>nva. length (h_name h) + length (h_value h))"
  by (simp add: cumulative_length_def name_len_def value_len_def foldl_add_sum)

lemma http_request_upload_trace:
  assumes "is_upload (httpreq w)"
  shows "filter send_request_call (trace (snd (http_request w mem))) =
         filter send_request_call (trace w)"
  using assms
  by (simp add: http_request_def Let_def called_def fail_def free_nva_def submit_trace
           split: parse.splits)

subsection \<open>The examples\<close>

lemma example_translation: "translate True True (example_request @ CRLF) = Parsed example_headers"
  by code_simp






lemma headers_example_run:
  "h3_stream_recv headers_example 16 = Some ((5, CURLE_OK), headers_example_after)"
  by code_simp


lemma two_hosts_translation:
  "translate True True two_hosts_request = Parsed two_hosts_headers"
  by code_simp

lemma late_host_wf:
  "wf_request ''GET'' ''/'' ''HTTP/1.1''"
  "\<forall>h\<in>set [(''Accept'', '' '', ''*/*''), (''User-Agent'', '' '', ''curl''),
             (''HOST'', '' '', ''example.com''), (''X-Y'', '' '', ''z'')]. wf_header h"
  by (simp_all add: wf_request_def wf_header_def blank_def)

lemma late_host_at:
  "host_at [(''Accept'', '' '', ''*/*''), (''User-Agent'', '' '', ''curl''),
            (''HOST'', '' '', ''example.com''), (''X-Y'', '' '', ''z'')] (5 - 3)"
  "\<forall>h\<in>set (drop (5 - 2) [(''Accept'', '' '', ''*/*''), (''User-Agent'', '' '', ''curl''),
             (''HOST'', '' '', ''example.com''), (''X-Y'', '' '', ''z'')]). \<not> names_host (fst h)"
  by (simp_all add: host_at_def names_host_def strncasecompare_def Curl_raw_toupper_def)

lemma long_wf:
  assumes "method \<noteq> []" "SP \<notin> set method" "CR \<notin> set method" "0 < n"
  shows "wf_request method ''/data'' ''HTTP/1.1''"
    and "\<forall>h\<in>set [(''Host'', '' '', ''example.com''), (''Accept'', '' '', ''*/*''),
                    (''X-Pad'', '' '', replicate n (CHR ''a''))]. wf_header h"
  using assms by (simp_all add: wf_request_def wf_header_def blank_def hd_replicate)

lemma long_translation:
  assumes "method \<noteq> []" "SP \<notin> set method" "CR \<notin> set method" "0 < n"
  shows "translate True True (long_request method n) = Parsed (long_headers method n)"
proof -
  have h: "names_host ''Host''" "\<not> names_host ''Accept''" "\<not> names_host ''X-Pad''"
    by (simp_all add: names_host_def strncasecompare_def Curl_raw_toupper_def)
  show ?thesis
    unfolding long_request_def long_headers_def
    using translate_wellformed[OF long_wf[OF assms], of True] h
    by (simp add: header_entry_def move_authority_def AUTHORITY_DST_IDX_def)
qed

lemma long_count:
  assumes "CR \<notin> set method"
  shows "count_headers (long_request method n) 1 0 = 5"
  unfolding long_request_def header_block_def
  using count_headers_lines_block[of "method @ SP # ''/data'' @ SP # ''HTTP/1.1''"
          "map header_line [(''Host'', '' '', ''example.com''), (''Accept'', '' '', ''*/*''),
                            (''X-Pad'', '' '', replicate n (CHR ''a''))]"] assms
  by (simp add: header_line_def)

lemma long_sum:
  "(\<Sum>h\<leftarrow>long_headers method n. length (h_name h) + length (h_value h)) =
   64 + length method + n"
  by (simp add: long_headers_def pseudo_headers_def)

lemma unterminated_folded_translation:
  "translate True True unterminated_folded_request =
   Parsed [\<lparr>h_name = '':method'', h_value = ''GET''\<rparr>,
           \<lparr>h_name = '':path'', h_value = ''/''\<rparr>,
           \<lparr>h_name = '':scheme'', h_value = ''https''\<rparr>,
           \<lparr>h_name = '':authority'', h_value = ''example.com''\<rparr>]"
  by code_simp

lemma unterminated_folded_count: "count_headers unterminated_folded_request 1 0 = 3"
  by code_simp

lemma stray_cr_translation:
  "translate True True stray_cr_request =
   Parsed [\<lparr>h_name = '':method'', h_value = ''GET''\<rparr>,
           \<lparr>h_name = '':path'', h_value = ''/''\<rparr>,
           \<lparr>h_name = '':scheme'', h_value = ''https''\<rparr>,
           \<lparr>h_name = ''A'', h_value = ''b''\<rparr>,
           \<lparr>h_name = ''C'', h_value = ''d''\<rparr>]"
  by code_simp

lemma stray_cr_count: "count_headers stray_cr_request 1 0 = 4"
  by code_simp

lemma body_reads_ingress:
  "process_ingress (body_reads_example bodies) =
   Some (CURLE_OK, (body_reads_example bodies)\<lparr>recv_ret := [], trace := [Call_recv]\<rparr>)"
  by (subst process_ingress_stop_recv[where e = EAGAIN and rest = "[]"])
     (simp_all add: body_reads_example_def idle_def)

subsection \<open>The ingress pump drains the socket\<close>

text \<open>
  Claim C5: when the socket holds \<open>K\<close> datagrams \<open>ds\<close> and then reports would-block
  (\<^verbatim>\<open>EAGAIN\<close> or \<^verbatim>\<open>EWOULDBLOCK\<close>), and the engine takes each of the datagrams (its
  answers \<open>rs\<close> are not negative), one call of \<^verbatim>\<open>process_ingress\<close> feeds all \<open>K\<close>
  datagrams to \<^verbatim>\<open>quiche_conn_recv\<close> in their order and returns \<^verbatim>\<open>CURLE_OK\<close>. After
  the datagrams \<open>ds\<close> the pump stops at the first of these: would-block from the socket
  or \<^verbatim>\<open>QUICHE_ERR_DONE\<close> from the engine, both with \<^verbatim>\<open>CURLE_OK\<close>; any other error
  of \<^verbatim>\<open>recv\<close> or any other negative answer of the engine, both with
  \<^verbatim>\<open>CURLE_RECV_ERROR\<close>. What is queued behind the stopping point stays untouched.
\<close>

theorem process_ingress_drains:
  assumes "recv_ret w = map Received ds @ stop # rest"
      and "quiche_conn_recv_ret w = rs @ qs"
      and "length rs = length ds"
      and "\<forall>r\<in>set rs. 0 \<le> r"
  shows "(\<forall>e. stop = Recv_failed e \<longrightarrow>
            process_ingress w =
            Some (if e = EAGAIN \<or> e = EWOULDBLOCK then CURLE_OK else CURLE_RECV_ERROR,
                  w\<lparr>recv_ret := rest, quiche_conn_recv_ret := qs,
                     trace := trace w @ fed ds @ [Call_recv]\<rparr>)) \<and>
         (\<forall>d q qs'. stop = Received d \<and> qs = q # qs' \<and> q < 0 \<longrightarrow>
            process_ingress w =
            Some (if q = QUICHE_ERR_DONE then CURLE_OK else CURLE_RECV_ERROR,
                  w\<lparr>recv_ret := rest, quiche_conn_recv_ret := qs',
                     trace := trace w @ fed (ds @ [d])\<rparr>))"
proof -
  let ?w = "w\<lparr>recv_ret := stop # rest, quiche_conn_recv_ret := qs, trace := trace w @ fed ds\<rparr>"
  have run: "process_ingress w = process_ingress ?w"
    using assms by (rule process_ingress_feeds)
  have a: "process_ingress w =
           Some (if e = EAGAIN \<or> e = EWOULDBLOCK then CURLE_OK else CURLE_RECV_ERROR,
                 w\<lparr>recv_ret := rest, quiche_conn_recv_ret := qs,
                    trace := trace w @ fed ds @ [Call_recv]\<rparr>)"
    if "stop = Recv_failed e" for e
    unfolding run using that
    by (subst process_ingress_stop_recv[where e = e and rest = rest]) simp_all
  have b: "process_ingress w =
           Some (if q = QUICHE_ERR_DONE then CURLE_OK else CURLE_RECV_ERROR,
                 w\<lparr>recv_ret := rest, quiche_conn_recv_ret := qs',
                    trace := trace w @ fed (ds @ [d])\<rparr>)"
    if "stop = Received d" "qs = q # qs'" "q < 0" for d q qs'
    unfolding run using that
    by (subst process_ingress_stop_engine[where d = d and rest = rest and q = q and qs = qs'])
       (simp_all add: fed_def)
  from a b show ?thesis by blast
qed

theorem process_ingress_drains_witness:
  "process_ingress
     (idle\<lparr>recv_ret := [Received ''a'', Received ''bc'', Recv_failed EAGAIN],
           quiche_conn_recv_ret := [1, 2]\<rparr>) =
   Some (CURLE_OK,
         idle\<lparr>trace := [Call_recv, Call_quiche_conn_recv ''a'',
                         Call_recv, Call_quiche_conn_recv ''bc'', Call_recv]\<rparr>) \<and>
   process_ingress
     (idle\<lparr>recv_ret := [Received ''a'', Recv_failed ECONNREFUSED, Received ''bc''],
           quiche_conn_recv_ret := [1, 2]\<rparr>) =
   Some (CURLE_RECV_ERROR,
         idle\<lparr>recv_ret := [Received ''bc''], quiche_conn_recv_ret := [2],
              trace := [Call_recv, Call_quiche_conn_recv ''a'', Call_recv]\<rparr>) \<and>
   process_ingress
     (idle\<lparr>recv_ret := [Received ''a'', Received ''bc'', Received ''d''],
           quiche_conn_recv_ret := [1, - 1, 3]\<rparr>) =
   Some (CURLE_OK,
         idle\<lparr>recv_ret := [Received ''d''], quiche_conn_recv_ret := [3],
              trace := [Call_recv, Call_quiche_conn_recv ''a'',
                        Call_recv, Call_quiche_conn_recv ''bc'']\<rparr>) \<and>
   process_ingress
     (idle\<lparr>recv_ret := [Received ''a'', Received ''bc'', Received ''d''],
           quiche_conn_recv_ret := [1, - 7, 3]\<rparr>) =
   Some (CURLE_RECV_ERROR,
         idle\<lparr>recv_ret := [Received ''d''], quiche_conn_recv_ret := [3],
              trace := [Call_recv, Call_quiche_conn_recv ''a'',
                        Call_recv, Call_quiche_conn_recv ''bc'']\<rparr>)"
  using
    process_ingress_drains[of "idle\<lparr>recv_ret := [Received ''a'', Received ''bc'', Recv_failed EAGAIN],
           quiche_conn_recv_ret := [1, 2]\<rparr>" "[''a'', ''bc'']" "Recv_failed EAGAIN" "[]" "[1, 2]" "[]"]
    process_ingress_drains[of "idle\<lparr>recv_ret := [Received ''a'', Recv_failed ECONNREFUSED, Received ''bc''],
           quiche_conn_recv_ret := [1, 2]\<rparr>" "[''a'']" "Recv_failed ECONNREFUSED" "[Received ''bc'']" "[1]" "[2]"]
    process_ingress_drains[of "idle\<lparr>recv_ret := [Received ''a'', Received ''bc'', Received ''d''],
           quiche_conn_recv_ret := [1, - 1, 3]\<rparr>" "[''a'']" "Received ''bc''" "[Received ''d'']" "[1]" "[- 1, 3]"]
    process_ingress_drains[of "idle\<lparr>recv_ret := [Received ''a'', Received ''bc'', Received ''d''],
           quiche_conn_recv_ret := [1, - 7, 3]\<rparr>" "[''a'']" "Received ''bc''" "[Received ''d'']" "[1]" "[- 7, 3]"]
  by (simp add: idle_def fed_def QUICHE_ERR_DONE_def)

subsection \<open>Body writes\<close>



subsection \<open>The byte count of recv\<close>

text \<open>
  Claim C6, amended: when \<^verbatim>\<open>h3_stream_recv\<close> returns with \<^verbatim>\<open>CURLE_OK\<close>, the byte
  count it returns is the result of \<^verbatim>\<open>quiche_h3_recv_body\<close> for the last Data event
  that the poll loop of this call handled, whatever its sign, or, when the loop handled
  no Data event, the result of the direct read \<^verbatim>\<open>quiche_conn_stream_recv\<close> of stream
  0. \<open>bodies\<close> are the results of the body reads of this call, one per Data event,
  \<open>direct\<close> is the result of the direct read. Whether an HTTP/3 context exists plays
  no part: the code does not look at \<^verbatim>\<open>qs->h3c\<close> here.

  And the call does return with \<^verbatim>\<open>CURLE_OK\<close>, whatever the body reads give: when the
  ingress pump has returned \<^verbatim>\<open>CURLE_OK\<close>, the direct read gives \<open>direct\<close>, which is
  not \<^verbatim>\<open>QUICHE_ERR_DONE\<close>, and \<^verbatim>\<open>quiche_h3_conn_poll\<close> hands out the events \<open>evs\<close>
  and then a negative value, the loop handles every event of \<open>evs\<close>, also those after
  a body read that gave zero or less, and the call returns with \<^verbatim>\<open>CURLE_OK\<close> the last
  of the body results \<open>bodies\<close>, positive or not, or \<open>direct\<close> when \<open>evs\<close> has no Data
  event.
\<close>

theorem h3_stream_recv_byte_count:
  "(h3_stream_recv w b = Some ((n, CURLE_OK), w') \<longrightarrow>
      (\<exists>direct bodies cs.
         quiche_conn_stream_recv_ret w = direct # quiche_conn_stream_recv_ret w' \<and>
         quiche_h3_recv_body_ret w = bodies @ quiche_h3_recv_body_ret w' \<and>
         trace w' = trace w @ cs \<and>
         length (filter recv_body_call cs) = length bodies \<and>
         n = (if bodies = [] then direct else last bodies))) \<and>
   (process_ingress w = Some (CURLE_OK, w1) \<and>
    quiche_conn_stream_recv_ret w = direct # rs \<and> direct \<noteq> QUICHE_ERR_DONE \<and>
    quiche_h3_conn_poll_ret w = evs @ (s, ev) # ps \<and> (\<forall>p\<in>set evs. 0 \<le> fst p) \<and> s < 0 \<and>
    quiche_h3_recv_body_ret w = bodies @ bs \<and>
    length bodies = length (filter data_event evs) \<and>
    quiche_conn_close_ret w = closes @ cs \<and>
    length closes = length (filter finished_event evs) \<longrightarrow>
      h3_stream_recv w b =
      Some ((if bodies = [] then direct else last bodies, CURLE_OK),
            w1\<lparr>quiche_conn_stream_recv_ret := rs, quiche_h3_conn_poll_ret := ps,
                quiche_h3_recv_body_ret := bs, quiche_conn_close_ret := cs,
                trace := trace w1 @ Call_quiche_conn_stream_recv 0 b #
                         concat (map (event_calls b) evs) @ [Call_quiche_h3_conn_poll]\<rparr>))"
proof (intro conjI impI)
  assume run: "h3_stream_recv w b = Some ((n, CURLE_OK), w')"
  from h3_stream_recv_effect[OF run] obtain ci cm direct bodies where
    t: "trace w' = trace w @ Call_recv # ci @ cm" and ci: "\<forall>x\<in>set ci. ingress_call x"
    and r: "quiche_conn_stream_recv_ret w = direct # quiche_conn_stream_recv_ret w'"
       "quiche_h3_recv_body_ret w = bodies @ quiche_h3_recv_body_ret w'"
       "length (filter recv_body_call cm) = length bodies"
       "n = (if bodies = [] then direct else last bodies)"
    by auto
  have "filter recv_body_call ci = []"
    using ci by (auto simp: filter_empty_conv dest: ingress_not_recv_body)
  with t r show "\<exists>direct bodies cs.
         quiche_conn_stream_recv_ret w = direct # quiche_conn_stream_recv_ret w' \<and>
         quiche_h3_recv_body_ret w = bodies @ quiche_h3_recv_body_ret w' \<and>
         trace w' = trace w @ cs \<and>
         length (filter recv_body_call cs) = length bodies \<and>
         n = (if bodies = [] then direct else last bodies)"
    by (intro exI[of _ direct] exI[of _ bodies] exI[of _ "Call_recv # ci @ cm"]) simp
next
  assume a: "process_ingress w = Some (CURLE_OK, w1) \<and>
    quiche_conn_stream_recv_ret w = direct # rs \<and> direct \<noteq> QUICHE_ERR_DONE \<and>
    quiche_h3_conn_poll_ret w = evs @ (s, ev) # ps \<and> (\<forall>p\<in>set evs. 0 \<le> fst p) \<and> s < 0 \<and>
    quiche_h3_recv_body_ret w = bodies @ bs \<and>
    length bodies = length (filter data_event evs) \<and>
    quiche_conn_close_ret w = closes @ cs \<and>
    length closes = length (filter finished_event evs)"
  then show "h3_stream_recv w b =
      Some ((if bodies = [] then direct else last bodies, CURLE_OK),
            w1\<lparr>quiche_conn_stream_recv_ret := rs, quiche_h3_conn_poll_ret := ps,
                quiche_h3_recv_body_ret := bs, quiche_conn_close_ret := cs,
                trace := trace w1 @ Call_quiche_conn_stream_recv 0 b #
                         concat (map (event_calls b) evs) @ [Call_quiche_h3_conn_poll]\<rparr>)"
    using h3_stream_recv_runs[of w w1 direct rs evs s ev ps bodies bs closes cs b] by blast
qed

theorem h3_stream_recv_byte_count_witness:
  "h3_stream_recv (body_reads_example [7, - 2]) 16 =
     Some ((- 2, CURLE_OK), body_reads_example_after) \<and>
   h3_stream_recv (body_reads_example [- 2, 7]) 16 =
     Some ((7, CURLE_OK), body_reads_example_after) \<and>
   (\<exists>direct bodies cs.
      quiche_conn_stream_recv_ret (body_reads_example [7, - 2]) =
        direct # quiche_conn_stream_recv_ret body_reads_example_after \<and>
      quiche_h3_recv_body_ret (body_reads_example [7, - 2]) =
        bodies @ quiche_h3_recv_body_ret body_reads_example_after \<and>
      trace body_reads_example_after = trace (body_reads_example [7, - 2]) @ cs \<and>
      length (filter recv_body_call cs) = length bodies \<and>
      (- 2::int) = (if bodies = [] then direct else last bodies))"
proof -
  define evs where
    "evs = [(0::int, QUICHE_H3_EVENT_DATA), (0, QUICHE_H3_EVENT_HEADERS [('':status'', ''200'')]),
            (0, QUICHE_H3_EVENT_DATA)]"
  have f: "quiche_conn_stream_recv_ret (body_reads_example bodies) = 5 # []"
      "quiche_h3_conn_poll_ret (body_reads_example bodies) =
         evs @ (- 1, QUICHE_H3_EVENT_FINISHED) # []"
      "quiche_h3_recv_body_ret (body_reads_example bodies) = bodies @ []"
      "quiche_conn_close_ret (body_reads_example bodies) = [] @ []" for bodies
    by (simp_all add: body_reads_example_def idle_def evs_def)
  have e: "(\<forall>p\<in>set evs. 0 \<le> fst p)" "length (filter data_event evs) = 2"
      "length (filter finished_event evs) = 0"
    by (simp_all add: evs_def)
  have after: "(body_reads_example bodies)\<lparr>recv_ret := [], trace := [Call_recv]\<rparr>
                 \<lparr>quiche_conn_stream_recv_ret := [], quiche_h3_conn_poll_ret := [],
                  quiche_h3_recv_body_ret := [], quiche_conn_close_ret := [],
                  trace := [Call_recv] @ Call_quiche_conn_stream_recv 0 16 #
                           concat (map (event_calls 16) evs) @ [Call_quiche_h3_conn_poll]\<rparr> =
               body_reads_example_after" for bodies
    by (simp add: body_reads_example_def body_reads_example_after_def idle_def evs_def)
  have a: "h3_stream_recv (body_reads_example [7, - 2]) 16 =
           Some ((- 2, CURLE_OK), body_reads_example_after)"
    using h3_stream_recv_byte_count[where w = "body_reads_example [7, - 2]" and b = 16
            and ?w1.0 = "(body_reads_example [7, - 2])\<lparr>recv_ret := [], trace := [Call_recv]\<rparr>"
            and direct = 5 and rs = "[]" and evs = evs and s = "- 1"
            and ev = QUICHE_H3_EVENT_FINISHED and ps = "[]" and bodies = "[7, - 2]"
            and bs = "[]" and closes = "[]" and cs = "[]"]
          body_reads_ingress[of "[7, - 2]"] f[of "[7, - 2]"] e after[of "[7, - 2]"]
    by (simp add: QUICHE_ERR_DONE_def)
  have b: "h3_stream_recv (body_reads_example [- 2, 7]) 16 =
           Some ((7, CURLE_OK), body_reads_example_after)"
    using h3_stream_recv_byte_count[where w = "body_reads_example [- 2, 7]" and b = 16
            and ?w1.0 = "(body_reads_example [- 2, 7])\<lparr>recv_ret := [], trace := [Call_recv]\<rparr>"
            and direct = 5 and rs = "[]" and evs = evs and s = "- 1"
            and ev = QUICHE_H3_EVENT_FINISHED and ps = "[]" and bodies = "[- 2, 7]"
            and bs = "[]" and closes = "[]" and cs = "[]"]
          body_reads_ingress[of "[- 2, 7]"] f[of "[- 2, 7]"] e after[of "[- 2, 7]"]
    by (simp add: QUICHE_ERR_DONE_def)
  from h3_stream_recv_byte_count[where w = "body_reads_example [7, - 2]" and b = 16
         and n = "- 2" and w' = body_reads_example_after] a
  have "\<exists>direct bodies cs.
      quiche_conn_stream_recv_ret (body_reads_example [7, - 2]) =
        direct # quiche_conn_stream_recv_ret body_reads_example_after \<and>
      quiche_h3_recv_body_ret (body_reads_example [7, - 2]) =
        bodies @ quiche_h3_recv_body_ret body_reads_example_after \<and>
      trace body_reads_example_after = trace (body_reads_example [7, - 2]) @ cs \<and>
      length (filter recv_body_call cs) = length bodies \<and>
      (- 2::int) = (if bodies = [] then direct else last bodies)"
    by blast
  with a b show ?thesis by blast
qed

text \<open>
  Claim C6, as stated, ties the second case to the absence of an HTTP/3 context. On
  \<open>headers_example\<close> the context exists, the call returns 5 bytes with \<^verbatim>\<open>CURLE_OK\<close>,
  and no Data event was handled: the 5 is the result of the direct read.
\<close>

theorem h3_stream_recv_byte_count_counterexample:
  "h3c headers_example \<and>
   h3_stream_recv headers_example 16 = Some ((5, CURLE_OK), headers_example_after) \<and>
   filter recv_body_call (trace headers_example_after) = []"
  using headers_example_run by (simp add: headers_example_def headers_example_after_def)

subsection \<open>Uploads\<close>

text \<open>
  Claim C4: when the request method is \<^verbatim>\<open>HTTPREQ_POST\<close>, \<^verbatim>\<open>HTTPREQ_POST_FORM\<close>,
  \<^verbatim>\<open>HTTPREQ_POST_MIME\<close> or \<^verbatim>\<open>HTTPREQ_PUT\<close>, \<^verbatim>\<open>http_request\<close> never calls
  \<^verbatim>\<open>quiche_h3_send_request\<close>, whatever the request buffer; and when the header
  translation succeeds, it sets \<^verbatim>\<open>stream->upload_left\<close> to
  \<^verbatim>\<open>conn->data->state.infilesize\<close> (to \<open>-1\<close> when that is \<open>-1\<close>, no length declared)
  and then reads the local \<^verbatim>\<open>stream3_id\<close>, which no statement has assigned.
\<close>

theorem upload_skips_submission:
  assumes "is_upload (httpreq w)"
  shows "filter send_request_call (trace (snd (http_request w mem))) =
           filter send_request_call (trace w) \<and>
         (\<forall>nva. translate (ssl w) (malloc_ok w) mem = Parsed nva \<longrightarrow>
            upload_left (snd (http_request w mem)) =
              (if infilesize w \<noteq> - 1 then infilesize w else - 1) \<and>
            fst (http_request w mem) = Inl Read_uninitialized)"
  using assms
  by (auto simp: http_request_upload_trace http_request_Parsed submit_result submit_upload_left)

theorem upload_skips_submission_witness:
  "is_upload (httpreq upload_example) \<and>
   translate (ssl upload_example) (malloc_ok upload_example) (example_request @ CRLF) =
     Parsed example_headers \<and>
   filter send_request_call
     (trace (snd (http_request upload_example (example_request @ CRLF)))) = [] \<and>
   upload_left (snd (http_request upload_example (example_request @ CRLF))) = 1000 \<and>
   fst (http_request upload_example (example_request @ CRLF)) = Inl Read_uninitialized"
proof -
  have u: "is_upload (httpreq upload_example)"
    by (simp add: upload_example_def is_upload_def)
  have t: "translate (ssl upload_example) (malloc_ok upload_example) (example_request @ CRLF) =
           Parsed example_headers"
    by (simp add: upload_example_def idle_def example_translation)
  have e: "trace upload_example = []" "infilesize upload_example = 1000"
    by (simp_all add: upload_example_def idle_def)
  from upload_skips_submission[OF u, of "example_request @ CRLF"] t
  have "filter send_request_call
          (trace (snd (http_request upload_example (example_request @ CRLF)))) =
        filter send_request_call (trace upload_example)"
    and "upload_left (snd (http_request upload_example (example_request @ CRLF))) =
           (if infilesize upload_example \<noteq> - 1 then infilesize upload_example else - 1)"
    and "fst (http_request upload_example (example_request @ CRLF)) = Inl Read_uninitialized"
    by blast+
  with u t e show ?thesis by simp
qed

subsection \<open>The pumps around recv and send\<close>




subsection \<open>The translation of a well-formed header block\<close>

text \<open>
  Claim C1: for a well-formed header block (a request line, \<open>N\<close> header lines and the
  empty line that ends the block) the header translation of \<^verbatim>\<open>http_request\<close>, with
  the array \<^verbatim>\<open>nva\<close> allocated, fills a list of exactly \<open>N + 3\<close> entries; its entries
  0, 1 and 2 are \<^verbatim>\<open>:method\<close>, \<^verbatim>\<open>:path\<close> and \<^verbatim>\<open>:scheme\<close>; the value of \<^verbatim>\<open>:method\<close> is
  what stands before the first space of the request line, the value of \<^verbatim>\<open>:path\<close> is
  what stands between its first and its last space, and the value of \<^verbatim>\<open>:scheme\<close> is
  \<^verbatim>\<open>https\<close> on an encrypted connection and \<^verbatim>\<open>http\<close> otherwise.
\<close>

theorem translation_of_wellformed_block:
  assumes "wf_request method path version" and "\<forall>h\<in>set hs. wf_header h"
  shows "\<exists>nva. translate encrypted True (header_block method path version hs) = Parsed nva \<and>
           length nva = length hs + 3 \<and>
           nva ! 0 = \<lparr>h_name = '':method'',
                      h_value = before_first_space (method @ SP # path @ SP # version)\<rparr> \<and>
           nva ! 1 = \<lparr>h_name = '':path'',
                      h_value = before_last_space
                                  (after_first_space (method @ SP # path @ SP # version))\<rparr> \<and>
           nva ! 2 = \<lparr>h_name = '':scheme'',
                      h_value = (if encrypted then ''https'' else ''http'')\<rparr> \<and>
           h_value (nva ! 0) = method \<and> h_value (nva ! 1) = path"
proof -
  let ?nva = "move_authority (authority_index 3 0 hs)
                (pseudo_headers encrypted method path @ map header_entry hs)"
  have p: "length (pseudo_headers encrypted method path) = 3"
    by (simp add: pseudo_headers_def)
  from translated_prefix[OF p, of hs]
  have l: "length ?nva = length hs + 3" and t: "take 3 ?nva = pseudo_headers encrypted method path"
    by simp_all
  have n: "?nva ! j = pseudo_headers encrypted method path ! j" if "j < 3" for j
    using that t by (metis nth_take)
  show ?thesis
    using translate_wellformed[OF assms, of encrypted] l n[of 0] n[of 1] n[of 2]
          request_line_parts[OF assms(1)]
    by (intro exI[of _ ?nva]) (simp add: pseudo_headers_def)
qed

theorem translation_of_wellformed_block_witness:
  "wf_request ''GET'' ''/index.html'' ''HTTP/1.1'' \<and>
   list_all wf_header [(''Host'', '' '', ''example.com''), (''Accept'', '' '', ''*/*'')] \<and>
   (\<exists>nva. translate True True (example_request @ CRLF) = Parsed nva \<and>
          length nva = 5 \<and>
          nva ! 0 = \<lparr>h_name = '':method'', h_value = ''GET''\<rparr> \<and>
          nva ! 1 = \<lparr>h_name = '':path'', h_value = ''/index.html''\<rparr> \<and>
          nva ! 2 = \<lparr>h_name = '':scheme'', h_value = ''https''\<rparr>)"
proof -
  from translation_of_wellformed_block[OF example_wf, of True]
  obtain nva where "translate True True (example_request @ CRLF) = Parsed nva"
    "length nva = 5" "nva ! 0 = \<lparr>h_name = '':method'', h_value = ''GET''\<rparr>"
    "nva ! 1 = \<lparr>h_name = '':path'', h_value = ''/index.html''\<rparr>"
    "nva ! 2 = \<lparr>h_name = '':scheme'', h_value = ''https''\<rparr>"
    unfolding example_block
    by (auto simp: request_line_parts[OF example_wf(1)])
  then show ?thesis
    using example_wf by (auto simp: list_all_iff)
qed

subsection \<open>The place of the authority entry\<close>

text \<open>
  Claim C2, amended: let a well-formed header block have a header at position \<open>k > 3\<close>
  of the translated list whose name is \<^verbatim>\<open>host\<close> in any case, and let no later header
  have that name. Then the translated list has that header, renamed \<^verbatim>\<open>:authority\<close>, at
  index 3; the entries of the positions 3 to \<open>k - 1\<close> each sit one place further back,
  in their order; the entries behind position \<open>k\<close> and the three entries of the request
  line are where they were. This is the list that \<^verbatim>\<open>http_request\<close> hands to
  \<^verbatim>\<open>quiche_h3_send_request\<close> when the method is not an upload.
\<close>

theorem authority_moved_to_index_3:
  assumes "wf_request method path version" and "\<forall>h\<in>set hs. wf_header h"
      and "3 < k" and "host_at hs (k - 3)"
      and "\<forall>h\<in>set (drop (k - 2) hs). \<not> names_host (fst h)"
  shows "\<exists>nva. translate encrypted True (header_block method path version hs) = Parsed nva \<and>
           length nva = length hs + 3 \<and>
           take 3 nva = pseudo_headers encrypted method path \<and>
           nva ! 3 = \<lparr>h_name = '':authority'', h_value = snd (snd (hs ! (k - 3)))\<rparr> \<and>
           (\<forall>j. 3 \<le> j \<and> j < k \<longrightarrow> nva ! (j + 1) = header_entry (hs ! (j - 3))) \<and>
           (\<forall>j. k < j \<and> j < length hs + 3 \<longrightarrow> nva ! j = header_entry (hs ! (j - 3))) \<and>
           (\<forall>w. ssl w = encrypted \<and> malloc_ok w \<and> \<not> is_upload (httpreq w) \<longrightarrow>
                Call_quiche_h3_send_request nva True \<in>
                  set (trace (snd (http_request w (header_block method path version hs)))))"
proof -
  let ?pre = "pseudo_headers encrypted method path @ map header_entry hs"
  let ?nva = "move_authority k ?pre"
  have p: "length (pseudo_headers encrypted method path) = 3"
    by (simp add: pseudo_headers_def)
  have kh: "k - 3 < length hs" and host: "names_host (fst (hs ! (k - 3)))"
    using assms(4) by (simp_all add: host_at_def)
  have sk: "Suc (k - 3) = k - 2" using assms(3) by simp
  have idx: "authority_index 3 0 hs = k"
    using authority_index_last[OF kh host, of 3 0] assms(3,5) by (simp add: sk)
  have tr: "translate encrypted True (header_block method path version hs) = Parsed ?nva"
    using translate_wellformed[OF assms(1,2), of encrypted] by (simp add: idx)
  have lp: "length ?pre = length hs + 3" using p by simp
  have k1: "AUTHORITY_DST_IDX < k"
    using assms(3) by (simp add: AUTHORITY_DST_IDX_def)
  have k2: "k < length ?pre"
    unfolding lp using assms(3) kh by arith
  from move_authority_nth[OF k1 k2]
  have l: "length ?nva = length hs + 3"
    and n: "\<And>j. j < length hs + 3 \<Longrightarrow> ?nva ! j =
            (if j = 3 then ?pre ! k
             else if 3 < j \<and> j \<le> k then ?pre ! (j - 1) else ?pre ! j)"
    using lp by (simp_all add: AUTHORITY_DST_IDX_def)
  have pre: "?pre ! j = header_entry (hs ! (j - 3))" if "3 \<le> j" "j < length hs + 3" for j
    using that p by (simp add: nth_append)
  have t: "take 3 ?nva = pseudo_headers encrypted method path"
    using translated_prefix[OF p, of hs] by (simp add: idx)
  have a: "?nva ! 3 = \<lparr>h_name = '':authority'', h_value = snd (snd (hs ! (k - 3)))\<rparr>"
  proof -
    have kl: "k < length hs + 3" using kh assms(3) by arith
    have "3 < length hs + 3" using kh by (cases hs) simp_all
    from n[OF this] have "?nva ! 3 = ?pre ! k" by simp
    also have "\<dots> = header_entry (hs ! (k - 3))"
      using assms(3) kl by (intro pre) simp_all
    finally have "?nva ! 3 = header_entry (hs ! (k - 3))" .
    then show ?thesis
      using host by (cases "hs ! (k - 3)") (simp add: header_entry_def)
  qed
  have b: "?nva ! (j + 1) = header_entry (hs ! (j - 3))" if "3 \<le> j \<and> j < k" for j
  proof -
    have j: "j < length hs + 3" "j + 1 < length hs + 3" using that kh assms(3) by arith+
    from n[OF j(2)] that have "?nva ! (j + 1) = ?pre ! j" by simp
    also have "\<dots> = header_entry (hs ! (j - 3))"
      using that j(1) by (intro pre) simp_all
    finally show ?thesis .
  qed
  have c: "?nva ! j = header_entry (hs ! (j - 3))" if "k < j \<and> j < length hs + 3" for j
  proof -
    from n[of j] that assms(3) have "?nva ! j = ?pre ! j" by simp
    also have "\<dots> = header_entry (hs ! (j - 3))"
      using that assms(3) by (intro pre) simp_all
    finally show ?thesis .
  qed
  have d: "Call_quiche_h3_send_request ?nva True \<in>
             set (trace (snd (http_request w (header_block method path version hs))))"
    if "ssl w = encrypted \<and> malloc_ok w \<and> \<not> is_upload (httpreq w)" for w
    using that tr
    by (simp add: http_request_Parsed[of w "header_block method path version hs" ?nva] submit_trace)
  show ?thesis
    by (rule exI[of _ ?nva]) (use tr l t a b c d in blast)
qed

theorem authority_moved_to_index_3_witness:
  "\<exists>nva. translate True True
            (header_block ''GET'' ''/'' ''HTTP/1.1''
               [(''Accept'', '' '', ''*/*''), (''User-Agent'', '' '', ''curl''),
                (''HOST'', '' '', ''example.com''), (''X-Y'', '' '', ''z'')]) = Parsed nva \<and>
         length nva = 7 \<and>
         take 3 nva = pseudo_headers True ''GET'' ''/'' \<and>
         nva ! 3 = \<lparr>h_name = '':authority'', h_value = ''example.com''\<rparr> \<and>
         nva ! 4 = \<lparr>h_name = ''Accept'', h_value = ''*/*''\<rparr> \<and>
         nva ! 5 = \<lparr>h_name = ''User-Agent'', h_value = ''curl''\<rparr> \<and>
         nva ! 6 = \<lparr>h_name = ''X-Y'', h_value = ''z''\<rparr> \<and>
         Call_quiche_h3_send_request nva True \<in>
           set (trace (snd (http_request idle
              (header_block ''GET'' ''/'' ''HTTP/1.1''
               [(''Accept'', '' '', ''*/*''), (''User-Agent'', '' '', ''curl''),
                (''HOST'', '' '', ''example.com''), (''X-Y'', '' '', ''z'')]))))"
proof -
  let ?hs = "[(''Accept'', '' '', ''*/*''), (''User-Agent'', '' '', ''curl''),
              (''HOST'', '' '', ''example.com''), (''X-Y'', '' '', ''z'')]"
  let ?mem = "header_block ''GET'' ''/'' ''HTTP/1.1'' ?hs"
  have k: "(3::nat) < 5" by simp
  from authority_moved_to_index_3[OF late_host_wf k late_host_at, of True]
  obtain nva where tr: "translate True True ?mem = Parsed nva"
    and l: "length nva = length ?hs + 3"
    and t: "take 3 nva = pseudo_headers True ''GET'' ''/''"
    and a: "nva ! 3 = \<lparr>h_name = '':authority'', h_value = snd (snd (?hs ! (5 - 3)))\<rparr>"
    and b: "\<And>j. 3 \<le> j \<and> j < 5 \<Longrightarrow> nva ! (j + 1) = header_entry (?hs ! (j - 3))"
    and c: "\<And>j. 5 < j \<and> j < length ?hs + 3 \<Longrightarrow> nva ! j = header_entry (?hs ! (j - 3))"
    and d: "\<And>w. ssl w = True \<and> malloc_ok w \<and> \<not> is_upload (httpreq w) \<Longrightarrow>
              Call_quiche_h3_send_request nva True \<in> set (trace (snd (http_request w ?mem)))"
    by blast
  have nh: "\<not> names_host ''Accept''" "\<not> names_host ''User-Agent''" "\<not> names_host ''X-Y''"
    by (simp_all add: names_host_def)
  have i: "ssl idle = True \<and> malloc_ok idle \<and> \<not> is_upload (httpreq idle)"
    by (simp add: idle_def is_upload_def)
  show ?thesis
    using tr l t a b[of 3] b[of 4] c[of 6] d[OF i] nh
    by (intro exI[of _ nva]) (simp add: header_entry_def)
qed

text \<open>
  Claim C2, as stated, speaks of every header named \<^verbatim>\<open>host\<close>. In a block with two of
  them the loop keeps the index of the last one only: the entry of the second
  \<^verbatim>\<open>Host\<close> line goes to index 3, and the entry of the first one, renamed
  \<^verbatim>\<open>:authority\<close> as well, stays among the other headers, here at index 5 behind the
  entry of \<^verbatim>\<open>X\<close>.
\<close>

theorem authority_moved_to_index_3_counterexample:
  "translate True True two_hosts_request = Parsed two_hosts_headers \<and>
   two_hosts_headers ! 3 \<noteq> \<lparr>h_name = '':authority'', h_value = ''a''\<rparr> \<and>
   two_hosts_headers ! 4 = \<lparr>h_name = ''X'', h_value = ''y''\<rparr> \<and>
   two_hosts_headers ! 5 = \<lparr>h_name = '':authority'', h_value = ''a''\<rparr>"
  using two_hosts_translation by (simp add: two_hosts_headers_def)

subsection \<open>Requests that the translation rejects\<close>

text \<open>
  Claim C8, amended: let \<^verbatim>\<open>malloc\<close> succeed. \<^verbatim>\<open>http_request\<close> leaves through the
  label \<^verbatim>\<open>fail\<close> in two cases. The first: the request line (the bytes before the
  first carriage return) has no space, or nothing before its first space, or no second
  space, or nothing between its first and its last space. The second: the buffer is a
  request line \<open>l0\<close> and header lines \<open>ls\<close>, none of which holds a carriage return,
  each followed by CRLF, then a line that starts with a space or a tab and its CRLF,
  and at least one more CRLF somewhere behind it, as in every block that ends with the
  empty line. In both cases the call returns \<^verbatim>\<open>CURLE_SEND_ERROR\<close>, its last call is
  \<^verbatim>\<open>free(nva)\<close>, no block of the heap stays allocated, and nothing is submitted.
\<close>

theorem malformed_request_fails:
  assumes "malloc_ok w"
      and "no_method_or_path (takeWhile (\<lambda>c. c \<noteq> CR) mem) \<or>
           (\<exists>l0 ls c l rest.
              mem = l0 @ CRLF @ concat (map (\<lambda>l. l @ CRLF) ls) @ (c # l) @ CRLF @ rest \<and>
              CR \<notin> set l0 \<and> (\<forall>l\<in>set ls. CR \<notin> set l) \<and> blank c \<and> 0 < crlf_pairs rest)"
  shows "fst (http_request w mem) = Inr CURLE_SEND_ERROR \<and>
         heap_blocks (snd (http_request w mem)) = heap_blocks w \<and>
         last (trace (snd (http_request w mem))) = Call_free \<and>
         filter send_request_call (trace (snd (http_request w mem))) =
           filter send_request_call (trace w)"
proof -
  have "translate (ssl w) True mem = Goto_fail"
    using assms(2) translate_malformed_request_line translate_reaches_continuation by blast
  then have "translate (ssl w) (malloc_ok w) mem = Goto_fail"
    using assms(1) by simp
  from http_request_Goto_fail[OF this] show ?thesis
    by simp
qed

theorem malformed_request_fails_witness:
  "fst (http_request idle no_space_request) = Inr CURLE_SEND_ERROR \<and>
   heap_blocks (snd (http_request idle no_space_request)) = heap_blocks idle \<and>
   last (trace (snd (http_request idle no_space_request))) = Call_free \<and>
   fst (http_request idle empty_path_request) = Inr CURLE_SEND_ERROR \<and>
   heap_blocks (snd (http_request idle empty_path_request)) = heap_blocks idle \<and>
   last (trace (snd (http_request idle empty_path_request))) = Call_free \<and>
   fst (http_request idle folded_request) = Inr CURLE_SEND_ERROR \<and>
   heap_blocks (snd (http_request idle folded_request)) = heap_blocks idle \<and>
   last (trace (snd (http_request idle folded_request))) = Call_free \<and>
   fst (http_request idle late_line_request) = Inr CURLE_SEND_ERROR \<and>
   heap_blocks (snd (http_request idle late_line_request)) = heap_blocks idle \<and>
   last (trace (snd (http_request idle late_line_request))) = Call_free"
proof -
  have m: "malloc_ok idle" by (simp add: idle_def)
  have a: "no_method_or_path (takeWhile (\<lambda>c. c \<noteq> CR) no_space_request)"
    by (simp add: no_space_request_def CRLF_def no_method_or_path_def)
  have b: "no_method_or_path (takeWhile (\<lambda>c. c \<noteq> CR) empty_path_request)"
    by (simp add: empty_path_request_def CRLF_def no_method_or_path_def before_first_space_def
          after_first_space_def before_last_space_def)
  have c: "\<exists>l0 ls c l rest.
             folded_request = l0 @ CRLF @ concat (map (\<lambda>l. l @ CRLF) ls) @ (c # l) @ CRLF @ rest \<and>
             CR \<notin> set l0 \<and> (\<forall>l\<in>set ls. CR \<notin> set l) \<and> blank c \<and> 0 < crlf_pairs rest"
    unfolding folded_request_def
    by (rule exI[of _ "''GET / HTTP/1.1''"], rule exI[of _ "[''Host: example.com'', ''X: a'']"],
        rule exI[of _ SP], rule exI[of _ "'' b: c''"], rule exI[of _ CRLF])
       (simp add: blank_def lines_block_def CRLF_def)
  have d: "\<exists>l0 ls c l rest.
             late_line_request = l0 @ CRLF @ concat (map (\<lambda>l. l @ CRLF) ls) @ (c # l) @ CRLF @ rest \<and>
             CR \<notin> set l0 \<and> (\<forall>l\<in>set ls. CR \<notin> set l) \<and> blank c \<and> 0 < crlf_pairs rest"
    unfolding late_line_request_def
    by (rule exI[of _ "''GET / HTTP/1.1''"], rule exI[of _ "[''X: a'']"],
        rule exI[of _ SP], rule exI[of _ "'' b: c''"], rule exI[of _ "''Host: example.com'' @ CRLF"])
       (simp add: blank_def CRLF_def)
  from malformed_request_fails[OF m disjI1[OF a]] malformed_request_fails[OF m disjI1[OF b]]
       malformed_request_fails[OF m disjI2[OF c]] malformed_request_fails[OF m disjI2[OF d]]
  show ?thesis by simp
qed

text \<open>
  Claim C8, as stated, speaks of every header block with a continuation line. The loop
  over the header lines runs once per CRLF pair beyond the first two and ends each line
  at the next carriage return. In a block without the empty line at its end the last
  line is never read, and a carriage return inside a header line makes the loop take
  that line for two, so that it stops one line early: both requests below hold a
  continuation line, are translated and go to \<^verbatim>\<open>quiche_h3_send_request\<close>, and the call returns
  \<^verbatim>\<open>CURLE_OK\<close>. And when \<^verbatim>\<open>malloc\<close> gives no block, a request line without a space
  is never looked at: the call returns \<^verbatim>\<open>CURLE_OUT_OF_MEMORY\<close>.
\<close>

theorem malformed_request_fails_counterexample:
  "http_request idle unterminated_folded_request =
     (Inr CURLE_OK,
      idle\<lparr>h3c := True,
           trace := [Call_quiche_h3_config_new, Call_quiche_h3_conn_new_with_transport,
                     Call_malloc 4,
                     Call_quiche_h3_send_request
                       [\<lparr>h_name = '':method'', h_value = ''GET''\<rparr>,
                        \<lparr>h_name = '':path'', h_value = ''/''\<rparr>,
                        \<lparr>h_name = '':scheme'', h_value = ''https''\<rparr>,
                        \<lparr>h_name = '':authority'', h_value = ''example.com''\<rparr>] True,
                     Call_free]\<rparr>) \<and>
   http_request idle stray_cr_request =
     (Inr CURLE_OK,
      idle\<lparr>h3c := True,
           trace := [Call_quiche_h3_config_new, Call_quiche_h3_conn_new_with_transport,
                     Call_malloc 5,
                     Call_quiche_h3_send_request
                       [\<lparr>h_name = '':method'', h_value = ''GET''\<rparr>,
                        \<lparr>h_name = '':path'', h_value = ''/''\<rparr>,
                        \<lparr>h_name = '':scheme'', h_value = ''https''\<rparr>,
                        \<lparr>h_name = ''A'', h_value = ''b''\<rparr>,
                        \<lparr>h_name = ''C'', h_value = ''d''\<rparr>] True,
                     Call_free]\<rparr>) \<and>
   fst (http_request (idle\<lparr>malloc_ok := False\<rparr>) no_space_request) = Inr CURLE_OUT_OF_MEMORY"
proof -
  have i: "ssl idle = True" "malloc_ok idle = True"
    by (simp_all add: idle_def)
  have a: "http_request idle unterminated_folded_request =
           submit [\<lparr>h_name = '':method'', h_value = ''GET''\<rparr>,
                   \<lparr>h_name = '':path'', h_value = ''/''\<rparr>,
                   \<lparr>h_name = '':scheme'', h_value = ''https''\<rparr>,
                   \<lparr>h_name = '':authority'', h_value = ''example.com''\<rparr>]
             (idle\<lparr>h3c := True,
                   trace := trace idle @
                     [Call_quiche_h3_config_new, Call_quiche_h3_conn_new_with_transport,
                      Call_malloc (count_headers unterminated_folded_request 1 0 + 1)],
                   heap_blocks := heap_blocks idle + 1\<rparr>)"
    by (rule http_request_Parsed) (simp add: i unterminated_folded_translation)
  have b: "http_request idle stray_cr_request =
           submit [\<lparr>h_name = '':method'', h_value = ''GET''\<rparr>,
                   \<lparr>h_name = '':path'', h_value = ''/''\<rparr>,
                   \<lparr>h_name = '':scheme'', h_value = ''https''\<rparr>,
                   \<lparr>h_name = ''A'', h_value = ''b''\<rparr>,
                   \<lparr>h_name = ''C'', h_value = ''d''\<rparr>]
             (idle\<lparr>h3c := True,
                   trace := trace idle @
                     [Call_quiche_h3_config_new, Call_quiche_h3_conn_new_with_transport,
                      Call_malloc (count_headers stray_cr_request 1 0 + 1)],
                   heap_blocks := heap_blocks idle + 1\<rparr>)"
    by (rule http_request_Parsed) (simp add: i stray_cr_translation)
  have c: "count_headers no_space_request 1 0 = 3"
    by code_simp
  have d: "fst (http_request (idle\<lparr>malloc_ok := False\<rparr>) no_space_request) =
           Inr CURLE_OUT_OF_MEMORY"
    using c by (simp add: http_request_def Let_def called_def del: One_nat_def)
  show ?thesis
    unfolding a b unterminated_folded_count stray_cr_count
    using d
    by (simp add: idle_def submit_def cumulative_length_def name_len_def value_len_def
          MAX_ACC_def is_upload_def free_nva_def called_def)
qed

subsection \<open>The size warning\<close>

text \<open>
  Claim C9: when the header translation has filled the list \<open>nva\<close>, \<^verbatim>\<open>http_request\<close>
  prints the size warning exactly when the lengths of all names and all values of
  \<open>nva\<close> add up to more than 60000: not at 60000, and at 60001 or more. With or without
  the warning the calls that follow and the result are the same. For a method that is
  not an upload the list \<open>nva\<close> goes unchanged to \<^verbatim>\<open>quiche_h3_send_request\<close>, with the
  finished flag set. For the four upload methods the \<^verbatim>\<open>switch\<close> at line 541 makes no
  such call (line 552 reads \<^verbatim>\<open>fix the body submission\<close>; the \<^verbatim>\<open>default\<close> branch at
  line 555 submits): the request is not submitted, with or without the warning, and
  line 562 reads \<^verbatim>\<open>stream3_id\<close>, which holds no value.
\<close>

theorem size_warning_threshold:
  assumes "translate (ssl w) (malloc_ok w) mem = Parsed nva"
  shows "trace (snd (http_request w mem)) =
           trace w @
           [Call_quiche_h3_config_new, Call_quiche_h3_conn_new_with_transport,
            Call_malloc (count_headers mem 1 0 + 1)] @
           (if 60000 < (\<Sum>h\<leftarrow>nva. length (h_name h) + length (h_value h))
            then [Call_infof_size_warning] else []) @
           (if is_upload (httpreq w) then [] else [Call_quiche_h3_send_request nva True]) @
           [Call_free] \<and>
         fst (http_request w mem) =
           (if is_upload (httpreq w) then Inl Read_uninitialized
            else if send_request_ret w < 0 then Inr CURLE_SEND_ERROR else Inr CURLE_OK)"
  by (simp add: http_request_Parsed[OF assms] submit_trace submit_result MAX_ACC_def
        cumulative_length_sum)

theorem size_warning_threshold_witness:
  "(\<Sum>h\<leftarrow>long_headers ''PUT'' 59933. length (h_name h) + length (h_value h)) = 60000 \<and>
   (\<Sum>h\<leftarrow>long_headers ''PUT'' 59934. length (h_name h) + length (h_value h)) = 60001 \<and>
   trace (snd (http_request idle (long_request ''GET'' 59933))) =
     [Call_quiche_h3_config_new, Call_quiche_h3_conn_new_with_transport, Call_malloc 6,
      Call_quiche_h3_send_request (long_headers ''GET'' 59933) True, Call_free] \<and>
   trace (snd (http_request idle (long_request ''GET'' 59934))) =
     [Call_quiche_h3_config_new, Call_quiche_h3_conn_new_with_transport, Call_malloc 6,
      Call_infof_size_warning,
      Call_quiche_h3_send_request (long_headers ''GET'' 59934) True, Call_free] \<and>
   trace (snd (http_request upload_example (long_request ''PUT'' 59933))) =
     [Call_quiche_h3_config_new, Call_quiche_h3_conn_new_with_transport, Call_malloc 6,
      Call_free] \<and>
   fst (http_request upload_example (long_request ''PUT'' 59933)) = Inl Read_uninitialized \<and>
   trace (snd (http_request upload_example (long_request ''PUT'' 59934))) =
     [Call_quiche_h3_config_new, Call_quiche_h3_conn_new_with_transport, Call_malloc 6,
      Call_infof_size_warning, Call_free] \<and>
   fst (http_request upload_example (long_request ''PUT'' 59934)) = Inl Read_uninitialized"
proof -
  have i: "ssl idle = True" "malloc_ok idle = True" "\<not> is_upload (httpreq idle)"
      "trace idle = []"
    by (simp_all add: idle_def is_upload_def)
  have u: "ssl upload_example = True" "malloc_ok upload_example = True"
      "is_upload (httpreq upload_example)" "trace upload_example = []"
    by (simp_all add: upload_example_def idle_def is_upload_def)
  have g: "translate (ssl idle) (malloc_ok idle) (long_request ''GET'' n) =
           Parsed (long_headers ''GET'' n)" if "0 < n" for n
    unfolding i using that by (intro long_translation) simp_all
  have p: "translate (ssl upload_example) (malloc_ok upload_example) (long_request ''PUT'' n) =
           Parsed (long_headers ''PUT'' n)" if "0 < n" for n
    unfolding u using that by (intro long_translation) simp_all
  have c: "count_headers (long_request ''GET'' n) 1 0 + 1 = 6"
      "count_headers (long_request ''PUT'' n) 1 0 + 1 = 6" for n
    by (simp_all add: long_count del: One_nat_def)
  have s: "(\<Sum>h\<leftarrow>long_headers ''GET'' n. length (h_name h) + length (h_value h)) = 67 + n"
      "(\<Sum>h\<leftarrow>long_headers ''PUT'' n. length (h_name h) + length (h_value h)) = 67 + n" for n
    by (simp_all add: long_sum)
  from size_warning_threshold[OF g[of 59933]] size_warning_threshold[OF g[of 59934]]
       size_warning_threshold[OF p[of 59933]] size_warning_threshold[OF p[of 59934]]
  show ?thesis
    unfolding c s by (simp add: i u)
qed

end
